theory Spec2Isabelle
  imports Complex_Main "HOL-Library.Word" "HOL-Library.Multiset"
begin

section \<open>Bounding boxes and the overlap merge (src/utils/imageProcessor.ts)\<close>

text \<open>
  \<^verbatim>\<open>interface BoundingBox { x: number; y: number; width: number; height: number; }\<close>
  The detector only ever produces integer coordinates, so the fields are integers.
\<close>

record BoundingBox =
  box_x :: int
  box_y :: int
  box_width :: int
  box_height :: int

definition doBoxesIntersect :: "BoundingBox \<Rightarrow> BoundingBox \<Rightarrow> bool" where
  "doBoxesIntersect a b \<longleftrightarrow>
     box_x a < box_x b + box_width b \<and>
     box_x a + box_width a > box_x b \<and>
     box_y a < box_y b + box_height b \<and>
     box_y a + box_height a > box_y b"

text \<open>The object literal assigned to \<^verbatim>\<open>result[i]\<close> when box \<open>j\<close> is merged into box \<open>i\<close>.\<close>

definition mergedBox :: "BoundingBox \<Rightarrow> BoundingBox \<Rightarrow> BoundingBox" where
  "mergedBox b1 b2 =
     (let minX = min (box_x b1) (box_x b2);
          minY = min (box_y b1) (box_y b2);
          maxX = max (box_x b1 + box_width b1) (box_x b2 + box_width b2);
          maxY = max (box_y b1 + box_height b1) (box_y b2 + box_height b2)
      in \<lparr>box_x = minX, box_y = minY, box_width = maxX - minX, box_height = maxY - minY\<rparr>)"

text \<open>\<^verbatim>\<open>result.splice(j, 1)\<close>: remove the element at index \<open>j\<close>.\<close>

definition splice1 :: "'a list \<Rightarrow> nat \<Rightarrow> 'a list" where
  "splice1 xs j = take j xs @ drop (Suc j) xs"

text \<open>
  The inner \<^verbatim>\<open>for (let j = i + 1; j < result.length; j++)\<close> loop. It returns the
  updated list when it merged a pair (the source then sets \<^verbatim>\<open>changed = true\<close> and breaks),
  and \<open>None\<close> when it ran to the end without a merge.
\<close>

function innerScan :: "BoundingBox list \<Rightarrow> nat \<Rightarrow> nat \<Rightarrow> BoundingBox list option" where
  "innerScan result i j =
     (if j < length result then
        (if doBoxesIntersect (result ! i) (result ! j) then
           Some (splice1 (result[i := mergedBox (result ! i) (result ! j)]) j)
         else innerScan result i (j + 1))
      else None)"
  by pat_completeness auto
termination
  by (relation "measure (\<lambda>(result, i, j). length result - j)") auto

declare innerScan.simps [simp del]

text \<open>
  The outer \<^verbatim>\<open>for (let i = 0; i < result.length; i++)\<close> loop, left by
  \<^verbatim>\<open>if (changed) break\<close> as soon as the inner loop merged a pair.
\<close>

function outerScan :: "BoundingBox list \<Rightarrow> nat \<Rightarrow> BoundingBox list option" where
  "outerScan result i =
     (if i < length result then
        (case innerScan result i (i + 1) of
           Some result' \<Rightarrow> Some result'
         | None \<Rightarrow> outerScan result (i + 1))
      else None)"
  by pat_completeness auto
termination
  by (relation "measure (\<lambda>(result, i). length result - i)") auto

declare outerScan.simps [simp del]

lemma innerScan_length:
  "innerScan result i j = Some r \<Longrightarrow> Suc (length r) = length result"
proof (induction result i j rule: innerScan.induct)
  case (1 result i j)
  show ?case
  proof (cases "j < length result")
    case False
    with "1.prems" show ?thesis by (simp add: innerScan.simps[of result i j])
  next
    case inb: True
    show ?thesis
    proof (cases "doBoxesIntersect (result ! i) (result ! j)")
      case True
      with inb "1.prems" have "r = splice1 (result[i := mergedBox (result ! i) (result ! j)]) j"
        by (simp add: innerScan.simps[of result i j])
      with inb show ?thesis by (simp add: splice1_def)
    next
      case False
      with inb "1.prems" "1.IH" show ?thesis by (simp add: innerScan.simps[of result i j])
    qed
  qed
qed

lemma outerScan_length:
  "outerScan result i = Some r \<Longrightarrow> Suc (length r) = length result"
proof (induction result i rule: outerScan.induct)
  case (1 result i)
  show ?case
  proof (cases "i < length result")
    case False
    with "1.prems" show ?thesis by (simp add: outerScan.simps[of result i])
  next
    case inb: True
    show ?thesis
    proof (cases "innerScan result i (i + 1)")
      case None
      with inb "1.prems" "1.IH" show ?thesis by (simp add: outerScan.simps[of result i])
    next
      case (Some r')
      with inb "1.prems" have "r = r'" by (simp add: outerScan.simps[of result i])
      with Some show ?thesis by (simp add: innerScan_length)
    qed
  qed
qed

text \<open>
  The \<^verbatim>\<open>while (changed)\<close> loop: one pass of the two scans; after a merge the scan
  restarts on the shorter list, and a pass without a merge ends the loop.
\<close>

function mergeLoop :: "BoundingBox list \<Rightarrow> BoundingBox list" where
  "mergeLoop result =
     (case outerScan result 0 of
        Some result' \<Rightarrow> mergeLoop result'
      | None \<Rightarrow> result)"
  by pat_completeness auto
termination
proof (relation "measure length")
  show "wf (measure length)" by simp
next
  fix result :: "BoundingBox list" and r
  assume "outerScan result 0 = Some r"
  then have "Suc (length r) = length result" by (rule outerScan_length)
  then show "(r, result) \<in> measure length" by simp
qed

declare mergeLoop.simps [simp del]

definition mergeOverlappingBoxes :: "BoundingBox list \<Rightarrow> BoundingBox list" where
  "mergeOverlappingBoxes boxes = mergeLoop boxes"

text \<open>
  One merge seen on the multiset of boxes: two boxes that intersect are replaced by their
  union. Every pass of the loop that changes the list is such a step.
\<close>

definition mergeStep :: "BoundingBox multiset \<Rightarrow> BoundingBox multiset \<Rightarrow> bool" where
  "mergeStep M N \<longleftrightarrow>
     (\<exists>a b R. M = add_mset a (add_mset b R) \<and> doBoxesIntersect a b \<and>
              N = add_mset (mergedBox a b) R)"

definition mergeNormal :: "BoundingBox multiset \<Rightarrow> bool" where
  "mergeNormal M \<longleftrightarrow> (\<forall>N. \<not> mergeStep M N)"

text \<open>Geometric containment of the box \<open>inner\<close> in the box \<open>outer\<close>.\<close>

definition boxContains :: "BoundingBox \<Rightarrow> BoundingBox \<Rightarrow> bool" where
  "boxContains outer inner \<longleftrightarrow>
     box_x outer \<le> box_x inner \<and> box_y outer \<le> box_y inner \<and>
     box_x inner + box_width inner \<le> box_x outer + box_width outer \<and>
     box_y inner + box_height inner \<le> box_y outer + box_height outer"

text \<open>
  A box is tight for a multiset of boxes when each of its four edges is the edge of a box of
  the multiset that it contains.
\<close>

definition tightBox :: "BoundingBox multiset \<Rightarrow> BoundingBox \<Rightarrow> bool" where
  "tightBox M c \<longleftrightarrow>
     (\<exists>b. b \<in># M \<and> boxContains c b \<and> box_x b = box_x c) \<and>
     (\<exists>b. b \<in># M \<and> boxContains c b \<and> box_y b = box_y c) \<and>
     (\<exists>b. b \<in># M \<and> boxContains c b \<and> box_x b + box_width b = box_x c + box_width c) \<and>
     (\<exists>b. b \<in># M \<and> boxContains c b \<and> box_y b + box_height b = box_y c + box_height c)"

subsection \<open>The partition the specification describes\<close>

text \<open>
  The specification describes the result as the transitive closure of the pairwise overlap
  relation on the input boxes, each class replaced by its bounding-box union (minimum of
  the origins, maximum of the extents). These definitions follow the specification's
  words, not the loop; the reflexive closure puts a box that overlaps nothing in a class
  of its own.
\<close>

definition overlapRel :: "BoundingBox list \<Rightarrow> (BoundingBox \<times> BoundingBox) set" where
  "overlapRel boxes = {(a, b). a \<in> set boxes \<and> b \<in> set boxes \<and> doBoxesIntersect a b}"

definition closureClass :: "BoundingBox list \<Rightarrow> BoundingBox \<Rightarrow> BoundingBox set" where
  "closureClass boxes a = {b \<in> set boxes. (a, b) \<in> (overlapRel boxes)\<^sup>*}"

definition unionBox :: "BoundingBox set \<Rightarrow> BoundingBox" where
  "unionBox S =
     (let minX = Min (box_x ` S);
          minY = Min (box_y ` S);
          maxX = Max ((\<lambda>b. box_x b + box_width b) ` S);
          maxY = Max ((\<lambda>b. box_y b + box_height b) ` S)
      in \<lparr>box_x = minX, box_y = minY, box_width = maxX - minX, box_height = maxY - minY\<rparr>)"

definition closureMerge :: "BoundingBox list \<Rightarrow> BoundingBox set" where
  "closureMerge boxes = (\<lambda>a. unionBox (closureClass boxes a)) ` set boxes"

text \<open>Example boxes: an L-shaped pair and a small box in the corner the L leaves free.\<close>

definition exBoxA :: BoundingBox where
  "exBoxA = \<lparr>box_x = 0, box_y = 0, box_width = 10, box_height = 2\<rparr>"

definition exBoxB :: BoundingBox where
  "exBoxB = \<lparr>box_x = 0, box_y = 0, box_width = 2, box_height = 10\<rparr>"

definition exBoxC :: BoundingBox where
  "exBoxC = \<lparr>box_x = 5, box_y = 5, box_width = 2, box_height = 2\<rparr>"

section \<open>The canvas and background removal (src/utils/imageProcessor.ts)\<close>

text \<open>
  The part of an \<^verbatim>\<open>HTMLCanvasElement\<close> the code reads and writes: whether
  \<^verbatim>\<open>getContext('2d')\<close> yields a context, the size, and the RGBA bytes that
  \<^verbatim>\<open>getImageData(0, 0, width, height)\<close> returns and \<^verbatim>\<open>putImageData\<close> stores, four bytes
  per pixel, row by row. The bytes are those of a \<^verbatim>\<open>Uint8ClampedArray\<close>.
\<close>

record Canvas =
  cv_has2d :: bool
  cv_width :: nat
  cv_height :: nat
  cv_data :: "8 word list"

datatype error =
    NoContext
  | IndexSizeError
  | CropFailed

definition wfCanvas :: "Canvas \<Rightarrow> bool" where
  "wfCanvas c \<longleftrightarrow> length (cv_data c) = 4 * cv_width c * cv_height c"

text \<open>
  \<^verbatim>\<open>ctx.getImageData(0, 0, width, height)\<close> throws an \<^verbatim>\<open>IndexSizeError\<close> when the width or
  the height is zero; none of the callers catches it.
\<close>

definition getImageData :: "Canvas \<Rightarrow> error + 8 word list" where
  "getImageData c =
     (if cv_width c = 0 \<or> cv_height c = 0 then Inl IndexSizeError else Inr (cv_data c))"

text \<open>Reading \<^verbatim>\<open>data[i]\<close>: \<open>None\<close> is JavaScript's \<^verbatim>\<open>undefined\<close> past the end.\<close>

definition rd :: "8 word list \<Rightarrow> nat \<Rightarrow> 8 word option" where
  "rd data i = (if i < length data then Some (data ! i) else None)"

text \<open>
  \<^verbatim>\<open>Math.sqrt(Math.pow(r - r0, 2) + Math.pow(g - g0, 2) + Math.pow(b - b0, 2))\<close> on byte
  values; the differences are taken on numbers, so nothing wraps.
\<close>

definition distance :: "8 word \<Rightarrow> 8 word \<Rightarrow> 8 word \<Rightarrow> 8 word \<Rightarrow> 8 word \<Rightarrow> 8 word \<Rightarrow> real" where
  "distance r g b r0 g0 b0 =
     sqrt (real_of_int ((uint r - uint r0)\<^sup>2 + (uint g - uint g0)\<^sup>2 + (uint b - uint b0)\<^sup>2))"

text \<open>
  The test \<^verbatim>\<open>distance <= tolerance\<close> for the pixel at byte index \<open>i\<close>. An operand that is
  \<^verbatim>\<open>undefined\<close> makes the distance \<^verbatim>\<open>NaN\<close>, and the comparison false.
\<close>

definition withinTolerance ::
  "8 word list \<Rightarrow> 8 word option \<Rightarrow> 8 word option \<Rightarrow> 8 word option \<Rightarrow> real \<Rightarrow> nat \<Rightarrow> bool" where
  "withinTolerance data r0 g0 b0 tolerance i =
     (case (rd data i, rd data (i + 1), rd data (i + 2), r0, g0, b0) of
        (Some r, Some g, Some b, Some r0', Some g0', Some b0') \<Rightarrow>
          distance r g b r0' g0' b0' \<le> tolerance
      | _ \<Rightarrow> False)"

text \<open>The loop body: \<^verbatim>\<open>if (distance <= tolerance) data[i + 3] = 0\<close>. A write past the end
  of a typed array is ignored, as \<open>list_update\<close> does.\<close>

definition removeStep ::
  "8 word list \<Rightarrow> 8 word option \<Rightarrow> 8 word option \<Rightarrow> 8 word option \<Rightarrow> real \<Rightarrow> nat \<Rightarrow> 8 word list" where
  "removeStep data r0 g0 b0 tolerance i =
     (if withinTolerance data r0 g0 b0 tolerance i then data[i + 3 := 0] else data)"

lemma length_removeStep [simp]: "length (removeStep data r0 g0 b0 tolerance i) = length data"
  by (simp add: removeStep_def)

text \<open>\<^verbatim>\<open>for (let i = 0; i < len; i += 4)\<close>\<close>

function removeLoop ::
  "8 word list \<Rightarrow> 8 word option \<Rightarrow> 8 word option \<Rightarrow> 8 word option \<Rightarrow> real \<Rightarrow> nat \<Rightarrow> 8 word list" where
  "removeLoop data r0 g0 b0 tolerance i =
     (if i < length data then
        removeLoop (removeStep data r0 g0 b0 tolerance i) r0 g0 b0 tolerance (i + 4)
      else data)"
  by pat_completeness auto
termination
  by (relation "measure (\<lambda>(data, r0, g0, b0, tolerance, i). length data - i)") auto

declare removeLoop.simps [simp del]

text \<open>
  \<^verbatim>\<open>removeBackground(canvas, tolerance = 20)\<close>. It returns nothing and rewrites the canvas;
  the model returns the canvas after the call, or the error thrown.
\<close>

definition removeBackground :: "Canvas \<Rightarrow> real \<Rightarrow> error + Canvas" where
  "removeBackground canvas tolerance =
     (if \<not> cv_has2d canvas then Inr canvas
      else case getImageData canvas of
        Inl e \<Rightarrow> Inl e
      | Inr data \<Rightarrow>
          (let r0 = rd data 0; g0 = rd data 1; b0 = rd data 2; a0 = rd data 3
           in if a0 = Some 0 then Inr canvas
              else Inr (canvas\<lparr>cv_data := removeLoop data r0 g0 b0 tolerance 0\<rparr>)))"

text \<open>The squared distance, the integer under the square root.\<close>

definition sqDistance :: "8 word \<Rightarrow> 8 word \<Rightarrow> 8 word \<Rightarrow> 8 word \<Rightarrow> 8 word \<Rightarrow> 8 word \<Rightarrow> int" where
  "sqDistance r g b r0 g0 b0 = (uint r - uint r0)\<^sup>2 + (uint g - uint g0)\<^sup>2 + (uint b - uint b0)\<^sup>2"

text \<open>Example canvas: a white pixel and a black pixel, both opaque.\<close>

definition exCanvasBW :: Canvas where
  "exCanvasBW = \<lparr>cv_has2d = True, cv_width = 2, cv_height = 1,
     cv_data = [255, 255, 255, 255, 0, 0, 0, 255]\<rparr>"

section \<open>Region detection (src/utils/imageProcessor.ts, findSprites)\<close>

text \<open>\<^verbatim>\<open>const getIndex = (x, y) => (y * width + x) * 4\<close>\<close>

definition getIndex :: "nat \<Rightarrow> int \<Rightarrow> int \<Rightarrow> int" where
  "getIndex width x y = (y * int width + x) * 4"

text \<open>
  \<^verbatim>\<open>const isTransparent = (idx) => data[idx + 3] < 10\<close>. Past the end of the data the
  read is \<^verbatim>\<open>undefined\<close> and the comparison false.
\<close>

definition isTransparent :: "8 word list \<Rightarrow> int \<Rightarrow> bool" where
  "isTransparent data idx =
     (if 0 \<le> idx + 3 then
        (case rd data (nat (idx + 3)) of Some a \<Rightarrow> a < 10 | None \<Rightarrow> False)
      else False)"

text \<open>
  Reading the \<^verbatim>\<open>Int8Array\<close> of visited marks, which holds 0 or 1; \<open>None\<close> is
  \<^verbatim>\<open>undefined\<close>, for which \<^verbatim>\<open>visited[vIdx] === 0\<close> is false.
\<close>

definition unvisited :: "nat list \<Rightarrow> int \<Rightarrow> bool" where
  "unvisited visited vIdx \<longleftrightarrow> 0 \<le> vIdx \<and> nat vIdx < length visited \<and> visited ! nat vIdx = 0"

text \<open>
  The variables of one flood fill. The stack holds the coordinates still to be handled;
  its top is the head of the list.
\<close>

record FillState =
  fs_minX :: int
  fs_maxX :: int
  fs_minY :: int
  fs_maxY :: int
  fs_stack :: "(int \<times> int) list"
  fs_visited :: "nat list"
  fs_pixelCount :: nat

text \<open>The body of \<^verbatim>\<open>for (const [nx, ny] of neighbors)\<close>, on the marks and the stack.\<close>

definition visitNeighbor ::
  "nat \<Rightarrow> nat \<Rightarrow> 8 word list \<Rightarrow> nat list \<times> (int \<times> int) list \<Rightarrow> int \<times> int \<Rightarrow>
   nat list \<times> (int \<times> int) list" where
  "visitNeighbor width height data vs n =
     (case (vs, n) of ((visited, stack), (nx, ny)) \<Rightarrow>
        if nx \<ge> 0 \<and> nx < int width \<and> ny \<ge> 0 \<and> ny < int height then
          (let vIdx = ny * int width + nx in
           if unvisited visited vIdx then
             (let pIdx = getIndex width nx ny in
              if \<not> isTransparent data pIdx then
                (visited[nat vIdx := 1], (nx, ny) # stack)
              else (visited, stack))
           else (visited, stack))
        else (visited, stack))"

text \<open>One turn of \<^verbatim>\<open>while (stack.length > 0)\<close>, for the popped coordinate \<open>(x, y)\<close>.\<close>

definition fillStep :: "nat \<Rightarrow> nat \<Rightarrow> 8 word list \<Rightarrow> FillState \<Rightarrow> int \<Rightarrow> int \<Rightarrow> (int \<times> int) list \<Rightarrow> FillState" where
  "fillStep width height data s x y rest =
     (let neighbors = [(x + 1, y), (x - 1, y), (x, y + 1), (x, y - 1)];
          vs = foldl (visitNeighbor width height data) (fs_visited s, rest) neighbors
      in \<lparr>fs_minX = (if x < fs_minX s then x else fs_minX s),
          fs_maxX = (if x > fs_maxX s then x else fs_maxX s),
          fs_minY = (if y < fs_minY s then y else fs_minY s),
          fs_maxY = (if y > fs_maxY s then y else fs_maxY s),
          fs_stack = snd vs,
          fs_visited = fst vs,
          fs_pixelCount = fs_pixelCount s + 1\<rparr>)"

text \<open>
  The loop ends: a turn pops one coordinate, and every push marks a pixel that was not
  marked before.
\<close>

definition fillMeasure :: "nat list \<times> (int \<times> int) list \<Rightarrow> nat" where
  "fillMeasure vs = 2 * length (filter (\<lambda>v. v = 0) (fst vs)) + length (snd vs)"

lemma filter_zero_update:
  "i < length xs \<Longrightarrow> xs ! i = 0 \<Longrightarrow>
   Suc (length (filter (\<lambda>v. v = 0) (xs[i := Suc 0]))) = length (filter (\<lambda>v. v = (0::nat)) xs)"
proof (induction xs arbitrary: i)
  case Nil
  then show ?case by simp
next
  case (Cons a xs)
  show ?case
  proof (cases i)
    case 0
    with Cons.prems show ?thesis by simp
  next
    case (Suc j)
    with Cons.prems Cons.IH[of j] show ?thesis by simp
  qed
qed

lemma visitNeighbor_measure:
  "fillMeasure (visitNeighbor width height data vs n) \<le> fillMeasure vs"
proof -
  obtain visited stack nx ny where e: "vs = (visited, stack)" "n = (nx, ny)"
    by (cases vs, cases n) auto
  show ?thesis
  proof (cases "unvisited visited (ny * int width + nx)")
    case True
    then have "nat (ny * int width + nx) < length visited"
      "visited ! nat (ny * int width + nx) = 0" by (simp_all add: unvisited_def)
    from filter_zero_update[OF this] show ?thesis
      unfolding e visitNeighbor_def fillMeasure_def by (simp add: Let_def)
  next
    case False
    then show ?thesis unfolding e visitNeighbor_def fillMeasure_def by (simp add: Let_def)
  qed
qed

lemma foldl_visitNeighbor_measure:
  "fillMeasure (foldl (visitNeighbor width height data) vs ns) \<le> fillMeasure vs"
proof (induction ns arbitrary: vs)
  case Nil
  show ?case by simp
next
  case (Cons n ns)
  have "fillMeasure (foldl (visitNeighbor width height data) (visitNeighbor width height data vs n) ns)
      \<le> fillMeasure (visitNeighbor width height data vs n)" by (rule Cons.IH)
  also have "\<dots> \<le> fillMeasure vs" by (rule visitNeighbor_measure)
  finally show ?case by simp
qed

lemma fillStep_measure:
  assumes "fs_stack s = (x, y) # rest"
  shows "fillMeasure (fs_visited (fillStep width height data s x y rest),
                      fs_stack (fillStep width height data s x y rest))
         < fillMeasure (fs_visited s, fs_stack s)"
proof -
  let ?ns = "[(x + 1, y), (x - 1, y), (x, y + 1), (x, y - 1)]"
  have "fillMeasure (foldl (visitNeighbor width height data) (fs_visited s, rest) ?ns)
      \<le> fillMeasure (fs_visited s, rest)" by (rule foldl_visitNeighbor_measure)
  also have "\<dots> < fillMeasure (fs_visited s, fs_stack s)"
    using assms by (simp add: fillMeasure_def)
  finally show ?thesis by (simp add: fillStep_def Let_def)
qed

function fillLoop :: "nat \<Rightarrow> nat \<Rightarrow> 8 word list \<Rightarrow> FillState \<Rightarrow> FillState" where
  "fillLoop width height data s =
     (case fs_stack s of
        [] \<Rightarrow> s
      | (x, y) # rest \<Rightarrow> fillLoop width height data (fillStep width height data s x y rest))"
  by pat_completeness auto
termination
proof (relation "measure (\<lambda>(width, height, data, s). fillMeasure (fs_visited s, fs_stack s))")
  show "wf (measure (\<lambda>(width, height, data, s). fillMeasure (fs_visited s, fs_stack s)))"
    by simp
next
  fix width height :: nat and data :: "8 word list" and s :: FillState
    and p :: "int \<times> int" and rest x y
  assume "fs_stack s = p # rest" "(x, y) = p"
  then have "fs_stack s = (x, y) # rest" by simp
  from fillStep_measure[OF this, of width height data]
  show "((width, height, data, fillStep width height data s x y rest), width, height, data, s)
        \<in> measure (\<lambda>(width, height, data, s). fillMeasure (fs_visited s, fs_stack s))"
    by simp
qed

declare fillLoop.simps [simp del]

text \<open>
  \<^verbatim>\<open>floodFill(startX, startY)\<close>. It marks pixels in the shared \<^verbatim>\<open>visited\<close> array, so the
  model returns the marks with the box; \<open>None\<close> is the \<^verbatim>\<open>null\<close> of a component of fewer
  than 50 pixels.
\<close>

definition floodFill ::
  "nat \<Rightarrow> nat \<Rightarrow> 8 word list \<Rightarrow> nat list \<Rightarrow> int \<Rightarrow> int \<Rightarrow> nat list \<times> BoundingBox option" where
  "floodFill width height data visited startX startY =
     (let s0 = \<lparr>fs_minX = startX, fs_maxX = startX, fs_minY = startY, fs_maxY = startY,
                fs_stack = [(startX, startY)],
                fs_visited = visited[nat (startY * int width + startX) := 1],
                fs_pixelCount = 0\<rparr>;
          s = fillLoop width height data s0;
          detectionPadding = 1
      in (fs_visited s,
          if fs_pixelCount s < 50 then None
          else Some \<lparr>box_x = max 0 (fs_minX s - detectionPadding),
                     box_y = max 0 (fs_minY s - detectionPadding),
                     box_width = min (int width) (fs_maxX s - fs_minX s + 1 + detectionPadding * 2),
                     box_height = min (int height) (fs_maxY s - fs_minY s + 1 + detectionPadding * 2)\<rparr>))"

text \<open>The body of the scan, at the pixel \<open>(x, y)\<close>, on the marks and the boxes found so far.\<close>

definition scanPixel ::
  "nat \<Rightarrow> nat \<Rightarrow> 8 word list \<Rightarrow> nat \<Rightarrow> nat list \<times> BoundingBox list \<Rightarrow> nat \<Rightarrow>
   nat list \<times> BoundingBox list" where
  "scanPixel width height data y vb x =
     (case vb of (visited, boxes) \<Rightarrow>
        (let idx = int y * int width + int x in
         if unvisited visited idx then
           (let pixelIdx = getIndex width (int x) (int y) in
            if \<not> isTransparent data pixelIdx then
              (case floodFill width height data visited (int x) (int y) of
                 (visited', Some box) \<Rightarrow> (visited', boxes @ [box])
               | (visited', None) \<Rightarrow> (visited', boxes))
            else (visited, boxes))
         else (visited, boxes)))"

text \<open>
  \<^verbatim>\<open>findSprites(canvas)\<close>: the row-major scan
  \<^verbatim>\<open>for (let y = 0; y < height; y++) for (let x = 0; x < width; x++)\<close>, then the merge.
\<close>

definition findSprites :: "Canvas \<Rightarrow> error + BoundingBox list" where
  "findSprites canvas =
     (if \<not> cv_has2d canvas then Inl NoContext
      else case getImageData canvas of
        Inl e \<Rightarrow> Inl e
      | Inr data \<Rightarrow>
          (let width = cv_width canvas; height = cv_height canvas;
               visited = replicate (width * height) (0::nat);
               vb = foldl (\<lambda>vb y. foldl (scanPixel width height data y) vb [0..<width])
                      (visited, []) [0..<height]
           in Inr (mergeOverlappingBoxes (snd vb))))"


text \<open>What stays true of the variables of a flood fill that starts inside the raster.\<close>

definition inRaster :: "nat \<Rightarrow> nat \<Rightarrow> int \<times> int \<Rightarrow> bool" where
  "inRaster width height p \<longleftrightarrow> 0 \<le> fst p \<and> fst p < int width \<and> 0 \<le> snd p \<and> snd p < int height"

definition fillInv :: "nat \<Rightarrow> nat \<Rightarrow> FillState \<Rightarrow> bool" where
  "fillInv width height s \<longleftrightarrow>
     list_all (inRaster width height) (fs_stack s) \<and>
     0 \<le> fs_minX s \<and> fs_minX s \<le> fs_maxX s \<and> fs_maxX s < int width \<and>
     0 \<le> fs_minY s \<and> fs_minY s \<le> fs_maxY s \<and> fs_maxY s < int height"

section \<open>Cropping (src/utils/imageProcessor.ts, cropImage)\<close>

text \<open>
  \<^verbatim>\<open>ProcessingSettings\<close>, with the fields the application's initial state gives it:
  \<^verbatim>\<open>{ removeBackground: false, backgroundTolerance: 20, homogenize: true, targetSize: 512, padding: 10 }\<close>.
\<close>

record ProcessingSettings =
  st_removeBackground :: bool
  st_backgroundTolerance :: real
  st_homogenize :: bool
  st_targetSize :: int
  st_padding :: real

text \<open>
  One call \<^verbatim>\<open>ctx.drawImage(image, sx, sy, sw, sh, dx, dy, dw, dh)\<close>: the rectangle of the
  source canvas that is read and the rectangle of the output it is painted to, with the
  \<^verbatim>\<open>imageSmoothingQuality\<close> in force (a new context has \<^verbatim>\<open>'low'\<close>). Source and
  destination of the same size mean a copy without scaling.
\<close>

datatype SmoothingQuality = Low | Medium | High

record DrawCall =
  dc_image :: Canvas
  dc_sx :: int
  dc_sy :: int
  dc_sw :: int
  dc_sh :: int
  dc_dx :: real
  dc_dy :: real
  dc_dw :: real
  dc_dh :: real
  dc_quality :: SmoothingQuality

text \<open>
  The temporary canvas \<^verbatim>\<open>cropImage\<close> creates: its size and what was drawn on it. A new
  canvas is transparent, and so is every pixel no call painted.
\<close>

record OutCanvas =
  oc_width :: int
  oc_height :: int
  oc_draws :: "DrawCall list"

text \<open>The PNG that \<^verbatim>\<open>toBlob\<close> encodes from a canvas.\<close>

datatype Blob = Png OutCanvas

text \<open>
  What the browser decides: whether a new canvas yields a 2D context, and for which
  canvases \<^verbatim>\<open>toBlob\<close> hands a blob (rather than \<^verbatim>\<open>null\<close>) to its callback.
\<close>

record Browser =
  br_tempContext :: bool
  br_encodes :: "OutCanvas \<Rightarrow> bool"

text \<open>
  \<^verbatim>\<open>drawImage\<close> paints nothing when the source rectangle has width or height zero (the
  scale of the homogenized branch is not a finite number then).
\<close>

definition drawImage :: "OutCanvas \<Rightarrow> DrawCall \<Rightarrow> OutCanvas" where
  "drawImage canvas call =
     (if dc_sw call = 0 \<or> dc_sh call = 0 then canvas
      else canvas\<lparr>oc_draws := oc_draws canvas @ [call]\<rparr>)"

text \<open>
  \<^verbatim>\<open>cropImage(sourceCanvas, box, settings)\<close>. The promise it returns is the value of the
  model: \<open>Inr\<close> the blob it resolves with, \<open>Inl\<close> the error it rejects with.
  \<^verbatim>\<open>Math.round\<close> rounds a half up, as \<open>round\<close> does.
\<close>

definition cropImage :: "Browser \<Rightarrow> Canvas \<Rightarrow> BoundingBox \<Rightarrow> ProcessingSettings \<Rightarrow> error + Blob" where
  "cropImage browser sourceCanvas box settings =
     (if \<not> br_tempContext browser then Inl NoContext
      else
        (let tempCanvas =
           (if st_homogenize settings then
              (let paddingPx = round (real_of_int (st_targetSize settings) * (st_padding settings / 100));
                   availableWidth = st_targetSize settings - (paddingPx * 2);
                   availableHeight = st_targetSize settings - (paddingPx * 2);
                   scale = min (real_of_int availableWidth / real_of_int (box_width box))
                               (real_of_int availableHeight / real_of_int (box_height box));
                   drawWidth = real_of_int (box_width box) * scale;
                   drawHeight = real_of_int (box_height box) * scale;
                   startX = real_of_int paddingPx + (real_of_int availableWidth - drawWidth) / 2;
                   startY = real_of_int paddingPx + (real_of_int availableHeight - drawHeight) / 2
               in drawImage
                    \<lparr>oc_width = st_targetSize settings, oc_height = st_targetSize settings,
                     oc_draws = []\<rparr>
                    \<lparr>dc_image = sourceCanvas, dc_sx = box_x box, dc_sy = box_y box,
                     dc_sw = box_width box, dc_sh = box_height box,
                     dc_dx = startX, dc_dy = startY, dc_dw = drawWidth, dc_dh = drawHeight,
                     dc_quality = High\<rparr>)
            else
              (let margin = 2
               in drawImage
                    \<lparr>oc_width = box_width box + (margin * 2),
                     oc_height = box_height box + (margin * 2), oc_draws = []\<rparr>
                    \<lparr>dc_image = sourceCanvas, dc_sx = box_x box, dc_sy = box_y box,
                     dc_sw = box_width box, dc_sh = box_height box,
                     dc_dx = real_of_int margin, dc_dy = real_of_int margin,
                     dc_dw = real_of_int (box_width box), dc_dh = real_of_int (box_height box),
                     dc_quality = Low\<rparr>))
         in if br_encodes browser tempCanvas then Inr (Png tempCanvas) else Inl CropFailed))"

subsection \<open>Example inputs for cropping\<close>

definition exSettings :: ProcessingSettings where
  "exSettings = \<lparr>st_removeBackground = False, st_backgroundTolerance = 20,
     st_homogenize = False, st_targetSize = 512, st_padding = 10\<rparr>"

definition exBrowser :: Browser where
  "exBrowser = \<lparr>br_tempContext = True, br_encodes = (\<lambda>c. True)\<rparr>"

definition exBox3040 :: BoundingBox where
  "exBox3040 = \<lparr>box_x = 5, box_y = 7, box_width = 30, box_height = 40\<rparr>"

section \<open>Naming (src/services/geminiService.ts, identifyAsset)\<close>

text \<open>
  What can happen inside the \<^verbatim>\<open>try\<close> block of \<^verbatim>\<open>identifyAsset\<close>: \<^verbatim>\<open>getAiClient\<close> throws
  because the API key is missing, reading the blob is rejected, the request is rejected,
  or a response arrives, whose \<^verbatim>\<open>text\<close> may be \<^verbatim>\<open>undefined\<close>.
\<close>

datatype AiOutcome =
    MissingApiKey
  | ReadFailed
  | RequestFailed
  | Responded "string option"

text \<open>
  \<^verbatim>\<open>String.prototype.trim\<close> on the white space of ASCII (space, tab, line feed, vertical
  tab, form feed, carriage return); strings are byte strings here.
\<close>

definition isSpace :: "char \<Rightarrow> bool" where
  "isSpace c \<longleftrightarrow> c \<in> set [CHR 0x20, CHR 0x09, CHR 0x0A, CHR 0x0B, CHR 0x0C, CHR 0x0D]"

definition trim :: "string \<Rightarrow> string" where
  "trim s = rev (dropWhile isSpace (rev (dropWhile isSpace s)))"

text \<open>\<^verbatim>\<open>replace\<close> with a global one-character pattern and an empty replacement.\<close>

definition removeAll :: "char \<Rightarrow> string \<Rightarrow> string" where
  "removeAll c s = filter (\<lambda>d. d \<noteq> c) s"

text \<open>
  \<^verbatim>\<open>identifyAsset(imageBlob)\<close>. The \<^verbatim>\<open>catch\<close> turns every failure into the fallback name,
  and an empty or missing text is replaced by it as well; then back quotes (0x60) and line
  feeds are removed and the result is trimmed.
\<close>

definition identifyAsset :: "(Blob \<Rightarrow> AiOutcome) \<Rightarrow> Blob \<Rightarrow> string" where
  "identifyAsset ai imageBlob =
     (case ai imageBlob of
        MissingApiKey \<Rightarrow> ''unknown_item''
      | ReadFailed \<Rightarrow> ''unknown_item''
      | RequestFailed \<Rightarrow> ''unknown_item''
      | Responded response \<Rightarrow>
          (let text =
             (case response of
                None \<Rightarrow> ''unknown_item''
              | Some t \<Rightarrow> if trim t = [] then ''unknown_item'' else trim t)
           in trim (removeAll (CHR 0x0A) (removeAll (CHR 0x60) text))))"

section \<open>The application (src/unnamed/part_000)\<close>

datatype ProcessingStep = UPLOAD | SETTINGS | PROCESSING | REVIEW

datatype Status = Pending | Naming | Ready | Error

record Asset =
  as_id :: string
  as_originalName :: string
  as_finalName :: string
  as_blob :: Blob
  as_previewUrl :: string
  as_box :: BoundingBox
  as_outputWidth :: int
  as_outputHeight :: int
  as_status :: Status

text \<open>The React state the two functions write, and the alerts shown.\<close>

record AppState =
  app_step :: ProcessingStep
  app_assets :: "Asset list"
  app_processedCount :: nat
  app_alerts :: "string list"

text \<open>
  The rest of the environment: the clock read by \<^verbatim>\<open>Date.now()\<close> while the asset of a given
  index is built, the URL \<^verbatim>\<open>URL.createObjectURL\<close> gives a blob, the outcome of the naming
  request for a blob, and the order in which the calls of one batch complete.
\<close>

record World =
  w_browser :: Browser
  w_now :: "nat \<Rightarrow> nat"
  w_objectUrl :: "Blob \<Rightarrow> string"
  w_ai :: "Blob \<Rightarrow> AiOutcome"
  w_completion :: "Asset list \<Rightarrow> Asset list"

text \<open>The decimal digits of a number, as a template string prints it.\<close>

fun decimal :: "nat \<Rightarrow> string" where
  "decimal n = (if n < 10 then [''0123456789'' ! n] else decimal (n div 10) @ [''0123456789'' ! (n mod 10)])"

declare decimal.simps [simp del]

text \<open>
  \<^verbatim>\<open>setAssets(prev => prev.map(a => a.id === asset.id ? { ...a, status: 'naming' } : a))\<close>
  and the update that stores the name.
\<close>

definition setNaming :: "string \<Rightarrow> Asset list \<Rightarrow> Asset list" where
  "setNaming ident prev = map (\<lambda>a. if as_id a = ident then a\<lparr>as_status := Naming\<rparr> else a) prev"

definition setReady :: "string \<Rightarrow> string \<Rightarrow> Asset list \<Rightarrow> Asset list" where
  "setReady ident name prev =
     map (\<lambda>a. if as_id a = ident
               then a\<lparr>as_originalName := name, as_finalName := name, as_status := Ready\<rparr>
               else a) prev"

text \<open>
  One batch. \<^verbatim>\<open>batch.map\<close> runs every callback up to its \<^verbatim>\<open>await\<close>, so the batch is marked
  as naming first; then the calls complete, in the order the environment chooses, and each
  stores its name and counts.
\<close>

definition startBatch :: "Asset list \<Rightarrow> AppState \<Rightarrow> AppState" where
  "startBatch batch st =
     foldl (\<lambda>st asset. st\<lparr>app_assets := setNaming (as_id asset) (app_assets st)\<rparr>) st batch"

definition finishBatch :: "World \<Rightarrow> Asset list \<Rightarrow> AppState \<Rightarrow> AppState" where
  "finishBatch world completed st =
     foldl (\<lambda>st asset.
              st\<lparr>app_assets :=
                   setReady (as_id asset) (identifyAsset (w_ai world) (as_blob asset)) (app_assets st),
                 app_processedCount := app_processedCount st + 1\<rparr>)
       st completed"

text \<open>
  \<^verbatim>\<open>for (let i = 0; i < currentAssets.length; i += BATCH_SIZE)\<close> with
  \<^verbatim>\<open>batch = currentAssets.slice(i, i + BATCH_SIZE)\<close>. The pause between two batches has no
  effect on the state.
\<close>

definition BATCH_SIZE :: nat where
  "BATCH_SIZE = 3"

function queueLoop :: "World \<Rightarrow> Asset list \<Rightarrow> nat \<Rightarrow> AppState \<Rightarrow> AppState" where
  "queueLoop world currentAssets i st =
     (if i < length currentAssets then
        (let batch = take BATCH_SIZE (drop i currentAssets)
         in queueLoop world currentAssets (i + BATCH_SIZE)
              (finishBatch world (w_completion world batch) (startBatch batch st)))
      else st)"
  by pat_completeness auto
termination
  by (relation "measure (\<lambda>(world, currentAssets, i, st). length currentAssets - i)")
    (auto simp: BATCH_SIZE_def)

declare queueLoop.simps [simp del]

definition queueAiNaming :: "World \<Rightarrow> Asset list \<Rightarrow> AppState \<Rightarrow> AppState" where
  "queueAiNaming world currentAssets st = queueLoop world currentAssets 0 st"

text \<open>
  \<^verbatim>\<open>Promise.all(boxes.map(async (box, index) => ...))\<close>: the assets in the order of the
  boxes when every \<^verbatim>\<open>cropImage\<close> resolves, a rejection when one of them rejects.
\<close>

fun buildAssets ::
  "World \<Rightarrow> Canvas \<Rightarrow> ProcessingSettings \<Rightarrow> nat \<Rightarrow> BoundingBox list \<Rightarrow> error + Asset list" where
  "buildAssets world canvas settings index [] = Inr []"
| "buildAssets world canvas settings index (box # boxes) =
     (case cropImage (w_browser world) canvas box settings of
        Inl e \<Rightarrow> Inl e
      | Inr blob \<Rightarrow>
          (case buildAssets world canvas settings (index + 1) boxes of
             Inl e \<Rightarrow> Inl e
           | Inr assets \<Rightarrow>
               (let isHomogenized = st_homogenize settings;
                    outputWidth = (if isHomogenized then st_targetSize settings else box_width box + 4);
                    outputHeight = (if isHomogenized then st_targetSize settings else box_height box + 4)
                in Inr (\<lparr>as_id = ''asset-'' @ decimal index @ ''-'' @ decimal (w_now world index),
                         as_originalName = '''',
                         as_finalName = ''item_'' @ decimal (index + 1),
                         as_blob = blob,
                         as_previewUrl = w_objectUrl world blob,
                         as_box = box,
                         as_outputWidth = outputWidth,
                         as_outputHeight = outputHeight,
                         as_status = Pending\<rparr> # assets))))"

text \<open>The \<^verbatim>\<open>catch\<close> block of \<^verbatim>\<open>process\<close>.\<close>

definition processFailed :: "AppState \<Rightarrow> AppState" where
  "processFailed st =
     st\<lparr>app_alerts := app_alerts st @ [''Failed to process image. See console for details.''],
        app_step := UPLOAD\<rparr>"

text \<open>
  \<^verbatim>\<open>process\<close>, the body of the splitting effect. \<open>canvas\<close> is the hidden canvas after the
  source image was drawn on it. The naming queue is started, not awaited; it cannot
  throw, and what it does to the state is part of the result.
\<close>

definition process :: "World \<Rightarrow> ProcessingSettings \<Rightarrow> Canvas \<Rightarrow> AppState \<Rightarrow> AppState" where
  "process world settings canvas st =
     (if \<not> cv_has2d canvas then st
      else
        (case (if st_removeBackground settings
               then removeBackground canvas (st_backgroundTolerance settings)
               else Inr canvas) of
           Inl e \<Rightarrow> processFailed st
         | Inr canvas' \<Rightarrow>
             (case findSprites canvas' of
                Inl e \<Rightarrow> processFailed st
              | Inr boxes \<Rightarrow>
                  if length boxes = 0 then
                    st\<lparr>app_alerts := app_alerts st @
                         [''No distinct sprites found. Try adjusting background removal.''],
                       app_step := SETTINGS\<rparr>
                  else
                    (case buildAssets world canvas' settings 0 boxes of
                       Inl e \<Rightarrow> processFailed st
                     | Inr initialAssets \<Rightarrow>
                         queueAiNaming world initialAssets
                           (st\<lparr>app_assets := initialAssets, app_step := REVIEW\<rparr>)))))"

subsection \<open>Failure of the collaborator, the named asset, example inputs\<close>

text \<open>The outcomes that count as a failure of the collaborator.\<close>

definition aiFailed :: "AiOutcome \<Rightarrow> bool" where
  "aiFailed outcome \<longleftrightarrow>
     (case outcome of
        Responded (Some t) \<Rightarrow> trim t = []
      | _ \<Rightarrow> True)"

text \<open>The asset once its name has arrived.\<close>

definition named :: "World \<Rightarrow> Asset \<Rightarrow> Asset" where
  "named world a =
     a\<lparr>as_originalName := identifyAsset (w_ai world) (as_blob a),
       as_finalName := identifyAsset (w_ai world) (as_blob a),
       as_status := Ready\<rparr>"

definition exBlobA :: Blob where
  "exBlobA = Png \<lparr>oc_width = 34, oc_height = 44, oc_draws = []\<rparr>"

definition exBlobB :: Blob where
  "exBlobB = Png \<lparr>oc_width = 20, oc_height = 20, oc_draws = []\<rparr>"

definition exAsset :: "string \<Rightarrow> Blob \<Rightarrow> Asset" where
  "exAsset ident blob =
     \<lparr>as_id = ident, as_originalName = '''', as_finalName = ''item'', as_blob = blob,
      as_previewUrl = ''blob:'', as_box = exBoxC, as_outputWidth = 6, as_outputHeight = 6,
      as_status = Pending\<rparr>"

definition exAssets :: "Asset list" where
  "exAssets = [exAsset ''a0'' exBlobA, exAsset ''a1'' exBlobB, exAsset ''a2'' exBlobB,
               exAsset ''a3'' exBlobA]"

definition exWorld :: World where
  "exWorld =
     \<lparr>w_browser = \<lparr>br_tempContext = True, br_encodes = (\<lambda>c. map dc_sx (oc_draws c) \<noteq> [0])\<rparr>,
      w_now = (\<lambda>i. 1700000000000),
      w_objectUrl = (\<lambda>b. ''blob:''),
      w_ai = (\<lambda>b. if b = exBlobA then RequestFailed else Responded (Some '' iron_sword '')),
      w_completion = rev\<rparr>"

definition exState :: AppState where
  "exState = \<lparr>app_step = REVIEW, app_assets = exAssets, app_processedCount = 0, app_alerts = []\<rparr>"
subsection \<open>Example rasters\<close>

definition exCanvasTwo :: Canvas where
  "exCanvasTwo = \<lparr>cv_has2d = True, cv_width = 23, cv_height = 5,
     cv_data = concat (map (\<lambda>i. if i mod 23 < 10 \<or> 13 \<le> i mod 23 then [0, 0, 0, 255]
                                  else [0, 0, 0, 0]) [0..<115])\<rparr>"

definition exCanvasEdge :: Canvas where
  "exCanvasEdge = \<lparr>cv_has2d = True, cv_width = 7, cv_height = 10,
     cv_data = concat (map (\<lambda>i. if 2 \<le> i mod 7 then [0, 0, 0, 255] else [0, 0, 0, 0]) [0..<70])\<rparr>"

definition exState0 :: AppState where
  "exState0 = \<lparr>app_step = PROCESSING, app_assets = [], app_processedCount = 0, app_alerts = []\<rparr>"

section \<open>Properties of the merge\<close>
lemma innerScan_Some:
  "innerScan result i j = Some r \<Longrightarrow>
   \<exists>k. j \<le> k \<and> k < length result \<and> doBoxesIntersect (result ! i) (result ! k) \<and>
       r = splice1 (result[i := mergedBox (result ! i) (result ! k)]) k"
proof (induction result i j rule: innerScan.induct)
  case (1 result i j)
  show ?case
  proof (cases "j < length result")
    case False
    with "1.prems" show ?thesis by (simp add: innerScan.simps[of result i j])
  next
    case inb: True
    show ?thesis
    proof (cases "doBoxesIntersect (result ! i) (result ! j)")
      case True
      with inb "1.prems" have "r = splice1 (result[i := mergedBox (result ! i) (result ! j)]) j"
        by (simp add: innerScan.simps[of result i j])
      with inb True show ?thesis by blast
    next
      case False
      with inb "1.prems" have "innerScan result i (j + 1) = Some r" by (simp add: innerScan.simps[of result i j])
      from "1.IH"[OF inb False this] obtain k where
        "j + 1 \<le> k" "k < length result" "doBoxesIntersect (result ! i) (result ! k)"
        "r = splice1 (result[i := mergedBox (result ! i) (result ! k)]) k" by blast
      then show ?thesis by (intro exI[of _ k]) simp
    qed
  qed
qed

lemma innerScan_None:
  "innerScan result i j = None \<Longrightarrow> j \<le> k \<Longrightarrow> k < length result \<Longrightarrow>
   \<not> doBoxesIntersect (result ! i) (result ! k)"
proof (induction result i j rule: innerScan.induct)
  case (1 result i j)
  from "1.prems" have inb: "j < length result" by simp
  with "1.prems"(1) have no: "\<not> doBoxesIntersect (result ! i) (result ! j)"
    by (auto simp: innerScan.simps[of result i j] split: if_splits)
  with inb "1.prems"(1) have rest: "innerScan result i (j + 1) = None" by (simp add: innerScan.simps[of result i j])
  show ?case
  proof (cases "k = j")
    case True
    with no show ?thesis by simp
  next
    case False
    with "1.prems" have "j + 1 \<le> k" by simp
    from "1.IH"[OF inb no rest this "1.prems"(3)] show ?thesis .
  qed
qed

lemma outerScan_Some:
  "outerScan result i = Some r \<Longrightarrow>
   \<exists>p q. i \<le> p \<and> p < q \<and> q < length result \<and> doBoxesIntersect (result ! p) (result ! q) \<and>
       r = splice1 (result[p := mergedBox (result ! p) (result ! q)]) q"
proof (induction result i rule: outerScan.induct)
  case (1 result i)
  show ?case
  proof (cases "i < length result")
    case False
    with "1.prems" show ?thesis by (simp add: outerScan.simps[of result i])
  next
    case inb: True
    show ?thesis
    proof (cases "innerScan result i (i + 1)")
      case None
      with inb "1.prems" have "outerScan result (i + 1) = Some r" by (simp add: outerScan.simps[of result i])
      from "1.IH"[OF inb None this] obtain p q where
        "i + 1 \<le> p" "p < q" "q < length result" "doBoxesIntersect (result ! p) (result ! q)"
        "r = splice1 (result[p := mergedBox (result ! p) (result ! q)]) q" by blast
      then show ?thesis by (intro exI[of _ p] exI[of _ q]) simp
    next
      case (Some r')
      with inb "1.prems" have "r = r'" by (simp add: outerScan.simps[of result i])
      with Some innerScan_Some[of result i "i + 1" r] obtain k where
        "i + 1 \<le> k" "k < length result" "doBoxesIntersect (result ! i) (result ! k)"
        "r = splice1 (result[i := mergedBox (result ! i) (result ! k)]) k" by blast
      then show ?thesis by (intro exI[of _ i] exI[of _ k]) simp
    qed
  qed
qed

lemma outerScan_None:
  "outerScan result i = None \<Longrightarrow> i \<le> p \<Longrightarrow> p < q \<Longrightarrow> q < length result \<Longrightarrow>
   \<not> doBoxesIntersect (result ! p) (result ! q)"
proof (induction result i rule: outerScan.induct)
  case (1 result i)
  from "1.prems" have inb: "i < length result" by simp
  with "1.prems"(1) have inner: "innerScan result i (i + 1) = None"
    by (auto simp: outerScan.simps[of result i] split: option.splits)
  with inb "1.prems"(1) have rest: "outerScan result (i + 1) = None" by (simp add: outerScan.simps[of result i])
  show ?case
  proof (cases "p = i")
    case True
    with innerScan_None[OF inner, of q] "1.prems" show ?thesis by simp
  next
    case False
    with "1.prems" have "i + 1 \<le> p" by simp
    from "1.IH"[OF inb inner rest this "1.prems"(3,4)] show ?thesis .
  qed
qed

lemma mergeLoop_fixpoint: "outerScan (mergeLoop result) 0 = None"
proof (induction result rule: mergeLoop.induct)
  case (1 result)
  show ?case
  proof (cases "outerScan result 0")
    case None
    then show ?thesis by (simp add: mergeLoop.simps[of result])
  next
    case (Some r)
    with "1.IH" show ?thesis by (simp add: mergeLoop.simps[of result])
  qed
qed

lemma mergeLoop_None: "outerScan result 0 = None \<Longrightarrow> mergeLoop result = result"
  by (simp add: mergeLoop.simps[of result])

lemma mset_splice1: "q < length xs \<Longrightarrow> mset xs = add_mset (xs ! q) (mset (splice1 xs q))"
proof -
  assume q: "q < length xs"
  then have "xs = take q xs @ xs ! q # drop (Suc q) xs" by (rule id_take_nth_drop)
  then have "mset xs = mset (take q xs @ xs ! q # drop (Suc q) xs)" by simp
  then show ?thesis by (simp add: splice1_def)
qed

lemma splice1_nth_below: "p < q \<Longrightarrow> q < length xs \<Longrightarrow> splice1 xs q ! p = xs ! p"
  by (simp add: splice1_def nth_append)

lemma splice1_update_below:
  "p < q \<Longrightarrow> q < length xs \<Longrightarrow> splice1 (xs[p := u]) q = (splice1 xs q)[p := u]"
  by (simp add: splice1_def list_update_append drop_update_cancel take_update_swap)

lemma length_splice1: "q < length xs \<Longrightarrow> Suc (length (splice1 xs q)) = length xs"
  by (simp add: splice1_def)

lemma mset_merge_pair:
  assumes "p < q" "q < length xs"
  shows "\<exists>R. mset xs = add_mset (xs ! p) (add_mset (xs ! q) R) \<and>
             mset (splice1 (xs[p := u]) q) = add_mset u R"
proof -
  let ?ys = "splice1 xs q"
  from assms have pl: "p < length ?ys" using length_splice1[of q xs] by simp
  have 1: "mset xs = add_mset (xs ! q) (mset ?ys)" using assms by (simp add: mset_splice1)
  have 2: "mset ?ys = add_mset (?ys ! p) (mset ?ys - {#?ys ! p#})" using pl by simp
  have 3: "mset (?ys[p := u]) = add_mset u (mset ?ys - {#?ys ! p#})"
    using pl by (simp add: mset_update)
  have 4: "?ys ! p = xs ! p" using assms by (rule splice1_nth_below)
  have 5: "splice1 (xs[p := u]) q = ?ys[p := u]" using assms by (rule splice1_update_below)
  show ?thesis
  proof (intro exI[of _ "mset ?ys - {#?ys ! p#}"] conjI)
    show "mset xs = add_mset (xs ! p) (add_mset (xs ! q) (mset ?ys - {#?ys ! p#}))"
      using 1 2 4 by (metis add_mset_commute)
    show "mset (splice1 (xs[p := u]) q) = add_mset u (mset ?ys - {#?ys ! p#})"
      using 3 5 by simp
  qed
qed

lemma outerScan_mergeStep: "outerScan result i = Some r \<Longrightarrow> mergeStep (mset result) (mset r)"
proof -
  assume "outerScan result i = Some r"
  then obtain p q where pq: "p < q" "q < length result"
      "doBoxesIntersect (result ! p) (result ! q)"
      "r = splice1 (result[p := mergedBox (result ! p) (result ! q)]) q"
    using outerScan_Some by blast
  from mset_merge_pair[OF pq(1,2), of "mergedBox (result ! p) (result ! q)"] pq(3,4)
  show ?thesis unfolding mergeStep_def by blast
qed

lemma doBoxesIntersect_sym: "doBoxesIntersect a b \<Longrightarrow> doBoxesIntersect b a"
  by (auto simp: doBoxesIntersect_def)

lemma mset_two_indices:
  "mset xs = add_mset a (add_mset b R) \<Longrightarrow>
   \<exists>p q. p \<noteq> q \<and> p < length xs \<and> q < length xs \<and> xs ! p = a \<and> xs ! q = b"
proof -
  assume eq: "mset xs = add_mset a (add_mset b R)"
  then have "a \<in> set xs" by (metis set_mset_mset union_single_eq_member)
  then obtain p where p: "p < length xs" "xs ! p = a" by (auto simp: in_set_conv_nth)
  from mset_splice1[OF p(1)] p(2) eq have "mset (splice1 xs p) = add_mset b R" by simp
  then have "b \<in> set (splice1 xs p)" by (metis set_mset_mset union_single_eq_member)
  then obtain k where k: "k < length (splice1 xs p)" "splice1 xs p ! k = b"
    by (auto simp: in_set_conv_nth)
  from k(1) p(1) have kl: "Suc k < Suc (length xs)" "k < length xs - 1"
    using length_splice1[OF p(1)] by auto
  show ?thesis
  proof (cases "k < p")
    case True
    with k p have "xs ! k = b" by (simp add: splice1_def nth_append)
    with True p kl show ?thesis by (intro exI[of _ p] exI[of _ k]) auto
  next
    case False
    with k p kl have "xs ! (Suc k) = b" by (simp add: splice1_def nth_append min_def)
    with False p kl show ?thesis by (intro exI[of _ p] exI[of _ "Suc k"]) auto
  qed
qed

lemma outerScan_None_normal: "outerScan result 0 = None \<Longrightarrow> \<not> mergeStep (mset result) N"
proof
  assume none: "outerScan result 0 = None" and "mergeStep (mset result) N"
  then obtain a b R where ab: "mset result = add_mset a (add_mset b R)" "doBoxesIntersect a b"
    unfolding mergeStep_def by blast
  from mset_two_indices[OF ab(1)] obtain p q where
    pq: "p \<noteq> q" "p < length result" "q < length result" "result ! p = a" "result ! q = b"
    by blast
  show False
  proof (cases "p < q")
    case True
    from outerScan_None[OF none _ True pq(3)] pq ab show False by simp
  next
    case False
    with pq have "q < p" by simp
    from outerScan_None[OF none _ this pq(2)] pq ab doBoxesIntersect_sym show False by auto
  qed
qed

lemma mergedBox_commute: "mergedBox a b = mergedBox b a"
  by (simp add: mergedBox_def Let_def min.commute max.commute)

lemma mergedBox_assoc: "mergedBox (mergedBox a b) c = mergedBox a (mergedBox b c)"
  by (simp add: mergedBox_def Let_def min.assoc max.assoc)

lemma mergedBox_contains_left: "boxContains (mergedBox a b) a"
  by (simp add: mergedBox_def Let_def boxContains_def)

lemma mergedBox_contains_right: "boxContains (mergedBox a b) b"
  by (simp add: mergedBox_def Let_def boxContains_def)

lemma boxContains_refl: "boxContains a a"
  by (simp add: boxContains_def)

lemma boxContains_trans: "boxContains a b \<Longrightarrow> boxContains b c \<Longrightarrow> boxContains a c"
  by (auto simp: boxContains_def)

lemma intersect_mono:
  "doBoxesIntersect a c \<Longrightarrow> boxContains a' a \<Longrightarrow> boxContains c' c \<Longrightarrow> doBoxesIntersect a' c'"
  by (auto simp: doBoxesIntersect_def boxContains_def)

lemma pair_cases:
  assumes "add_mset a (add_mset b R) = add_mset c (add_mset d R')"
  shows "(R = R' \<and> (a = c \<and> b = d \<or> a = d \<and> b = c)) \<or>
         (\<exists>K. a = c \<and> R = add_mset d K \<and> R' = add_mset b K) \<or>
         (\<exists>K. a = d \<and> R = add_mset c K \<and> R' = add_mset b K) \<or>
         (\<exists>K. b = c \<and> R = add_mset d K \<and> R' = add_mset a K) \<or>
         (\<exists>K. b = d \<and> R = add_mset c K \<and> R' = add_mset a K) \<or>
         (\<exists>K. R = add_mset c (add_mset d K) \<and> R' = add_mset a (add_mset b K))"
proof -
  note E = add_eq_conv_ex
  from assms consider
      (same) "a = c" "add_mset b R = add_mset d R'"
    | (diff) K where "add_mset b R = add_mset c K" "add_mset d R' = add_mset a K"
    unfolding E[of a "add_mset b R" c "add_mset d R'"] by blast
  then show ?thesis
  proof cases
    case same
    from same(2) consider "b = d" "R = R'" | K where "R = add_mset d K" "R' = add_mset b K"
      unfolding E[of b R d R'] by blast
    then show ?thesis using same(1) by cases blast+
  next
    case diff
    from diff(1) consider (x) "b = c" "R = K" | (y) K1 where "R = add_mset c K1" "K = add_mset b K1"
      unfolding E[of b R c K] by blast
    then show ?thesis
    proof cases
      case x
      from diff(2) consider "d = a" "R' = K" | K2 where "R' = add_mset a K2" "K = add_mset d K2"
        unfolding E[of d R' a K] by blast
      then show ?thesis using x by cases blast+
    next
      case y
      from diff(2) consider (u) "d = a" "R' = K" | (v) K2 where "R' = add_mset a K2" "K = add_mset d K2"
        unfolding E[of d R' a K] by blast
      then show ?thesis
      proof cases
        case u
        with y show ?thesis by blast
      next
        case v
        with y have "add_mset b K1 = add_mset d K2" by simp
        then consider "b = d" "K1 = K2" | K3 where "K1 = add_mset d K3" "K2 = add_mset b K3"
          unfolding E[of b K1 d K2] by blast
        then show ?thesis using y v by cases blast+
      qed
    qed
  qed
qed
lemma mergeStep_I:
  "doBoxesIntersect a b \<Longrightarrow> mergeStep (add_mset a (add_mset b R)) (add_mset (mergedBox a b) R)"
  unfolding mergeStep_def by blast

lemma mergeStep_size: "mergeStep M N \<Longrightarrow> size M = Suc (size N)"
  unfolding mergeStep_def by auto

text \<open>Two merges that share the box \<open>a\<close> can be joined by merging the third box in.\<close>

lemma join_shared:
  assumes ab: "doBoxesIntersect a b" and ad: "doBoxesIntersect a d"
  shows "\<exists>J. mergeStep (add_mset (mergedBox a b) (add_mset d K)) J \<and>
             mergeStep (add_mset (mergedBox a d) (add_mset b K)) J"
proof -
  have 1: "doBoxesIntersect (mergedBox a b) d"
    using ad mergedBox_contains_left boxContains_refl by (rule intersect_mono)
  have 2: "doBoxesIntersect (mergedBox a d) b"
    using ab mergedBox_contains_left boxContains_refl by (rule intersect_mono)
  have eq: "mergedBox (mergedBox a b) d = mergedBox (mergedBox a d) b"
    by (metis mergedBox_assoc mergedBox_commute)
  from mergeStep_I[OF 1, of K] mergeStep_I[OF 2, of K] eq show ?thesis by auto
qed

lemma join_disjoint:
  assumes ab: "doBoxesIntersect a b" and cd: "doBoxesIntersect c d"
  shows "\<exists>J. mergeStep (add_mset (mergedBox a b) (add_mset c (add_mset d K))) J \<and>
             mergeStep (add_mset (mergedBox c d) (add_mset a (add_mset b K))) J"
proof -
  have e1: "add_mset (mergedBox a b) (add_mset c (add_mset d K)) =
            add_mset c (add_mset d (add_mset (mergedBox a b) K))" by simp
  have e2: "add_mset (mergedBox c d) (add_mset a (add_mset b K)) =
            add_mset a (add_mset b (add_mset (mergedBox c d) K))" by simp
  have e3: "add_mset (mergedBox c d) (add_mset (mergedBox a b) K) =
            add_mset (mergedBox a b) (add_mset (mergedBox c d) K)" by simp
  from mergeStep_I[OF cd, of "add_mset (mergedBox a b) K"]
       mergeStep_I[OF ab, of "add_mset (mergedBox c d) K"]
  show ?thesis unfolding e1 e2 e3 by blast
qed

lemma mergeStep_local_confluence:
  assumes "mergeStep M N1" "mergeStep M N2"
  shows "N1 = N2 \<or> (\<exists>J. mergeStep N1 J \<and> mergeStep N2 J)"
proof -
  from assms(1) obtain a b R where 1: "M = add_mset a (add_mset b R)" "doBoxesIntersect a b"
    "N1 = add_mset (mergedBox a b) R" unfolding mergeStep_def by blast
  from assms(2) obtain c d R' where 2: "M = add_mset c (add_mset d R')" "doBoxesIntersect c d"
    "N2 = add_mset (mergedBox c d) R'" unfolding mergeStep_def by blast
  have ba: "doBoxesIntersect b a" and dc: "doBoxesIntersect d c"
    using 1 2 doBoxesIntersect_sym by blast+
  from 1(1) 2(1) have "add_mset a (add_mset b R) = add_mset c (add_mset d R')" by simp
  from pair_cases[OF this] consider
      (same) "R = R'" "a = c \<and> b = d \<or> a = d \<and> b = c"
    | (ac) K where "a = c" "R = add_mset d K" "R' = add_mset b K"
    | (ad) K where "a = d" "R = add_mset c K" "R' = add_mset b K"
    | (bc) K where "b = c" "R = add_mset d K" "R' = add_mset a K"
    | (bd) K where "b = d" "R = add_mset c K" "R' = add_mset a K"
    | (disj) K where "R = add_mset c (add_mset d K)" "R' = add_mset a (add_mset b K)"
    by blast
  then show ?thesis
  proof cases
    case same
    then show ?thesis using 1(3) 2(3) mergedBox_commute by auto
  next
    case ac
    have n1: "N1 = add_mset (mergedBox a b) (add_mset d K)" using 1(3) ac by simp
    have n2: "N2 = add_mset (mergedBox a d) (add_mset b K)" using 2(3) ac by simp
    have "doBoxesIntersect a d" using 2(2) ac by simp
    from join_shared[OF 1(2) this, of K] show ?thesis unfolding n1 n2 by blast
  next
    case ad
    have n1: "N1 = add_mset (mergedBox a b) (add_mset c K)" using 1(3) ad by simp
    have n2: "N2 = add_mset (mergedBox a c) (add_mset b K)"
      using 2(3) ad mergedBox_commute[of c a] by simp
    have "doBoxesIntersect a c" using dc ad by simp
    from join_shared[OF 1(2) this, of K] show ?thesis unfolding n1 n2 by blast
  next
    case bc
    have n1: "N1 = add_mset (mergedBox b a) (add_mset d K)"
      using 1(3) bc mergedBox_commute[of a b] by simp
    have n2: "N2 = add_mset (mergedBox b d) (add_mset a K)" using 2(3) bc by simp
    have "doBoxesIntersect b d" using 2(2) bc by simp
    from join_shared[OF ba this, of K] show ?thesis unfolding n1 n2 by blast
  next
    case bd
    have n1: "N1 = add_mset (mergedBox b a) (add_mset c K)"
      using 1(3) bd mergedBox_commute[of a b] by simp
    have n2: "N2 = add_mset (mergedBox b c) (add_mset a K)"
      using 2(3) bd mergedBox_commute[of c b] by simp
    have "doBoxesIntersect b c" using dc bd by simp
    from join_shared[OF ba this, of K] show ?thesis unfolding n1 n2 by blast
  next
    case disj
    from join_disjoint[OF 1(2) 2(2), of K] disj 1(3) 2(3) show ?thesis by auto
  qed
qed

lemma normal_form_exists: "\<exists>N. mergeStep\<^sup>*\<^sup>* M N \<and> mergeNormal N"
proof (induction "size M" arbitrary: M rule: less_induct)
  case less
  show ?case
  proof (cases "mergeNormal M")
    case True
    then show ?thesis by blast
  next
    case False
    then obtain M' where s: "mergeStep M M'" unfolding mergeNormal_def by blast
    then have "size M' < size M" by (simp add: mergeStep_size)
    from less[OF this] obtain N where "mergeStep\<^sup>*\<^sup>* M' N" "mergeNormal N" by blast
    with s show ?thesis by (meson converse_rtranclp_into_rtranclp)
  qed
qed

lemma normal_form_unique:
  "mergeStep\<^sup>*\<^sup>* M N1 \<Longrightarrow> mergeNormal N1 \<Longrightarrow> mergeStep\<^sup>*\<^sup>* M N2 \<Longrightarrow> mergeNormal N2 \<Longrightarrow>
   N1 = N2"
proof (induction "size M" arbitrary: M N1 N2 rule: less_induct)
  case less
  show ?case
  proof (cases "mergeNormal M")
    case True
    then have "\<And>N. mergeStep\<^sup>*\<^sup>* M N \<Longrightarrow> N = M"
      unfolding mergeNormal_def by (metis converse_rtranclpE)
    with less.prems show ?thesis by blast
  next
    case False
    with less.prems have "M \<noteq> N1" "M \<noteq> N2" by auto
    with less.prems obtain M1 M2 where
      m1: "mergeStep M M1" "mergeStep\<^sup>*\<^sup>* M1 N1" and m2: "mergeStep M M2" "mergeStep\<^sup>*\<^sup>* M2 N2"
      by (metis converse_rtranclpE)
    have s1: "size M1 < size M" and s2: "size M2 < size M"
      using mergeStep_size[OF m1(1)] mergeStep_size[OF m2(1)] by simp_all
    from mergeStep_local_confluence[OF m1(1) m2(1)] show ?thesis
    proof
      assume "M1 = M2"
      with less.hyps[OF s1 m1(2) less.prems(2) _ less.prems(4)] m2(2) show ?thesis by simp
    next
      assume "\<exists>J. mergeStep M1 J \<and> mergeStep M2 J"
      then obtain J where j: "mergeStep M1 J" "mergeStep M2 J" by blast
      from normal_form_exists[of J] obtain NJ where nj: "mergeStep\<^sup>*\<^sup>* J NJ" "mergeNormal NJ"
        by blast
      have r1: "mergeStep\<^sup>*\<^sup>* M1 NJ" and r2: "mergeStep\<^sup>*\<^sup>* M2 NJ"
        using j nj(1) by (meson converse_rtranclp_into_rtranclp)+
      from less.hyps[OF s1 m1(2) less.prems(2) r1 nj(2)]
           less.hyps[OF s2 m2(2) less.prems(4) r2 nj(2)]
      show ?thesis by simp
    qed
  qed
qed

lemma mergeLoop_reaches: "mergeStep\<^sup>*\<^sup>* (mset result) (mset (mergeLoop result))"
proof (induction result rule: mergeLoop.induct)
  case (1 result)
  show ?case
  proof (cases "outerScan result 0")
    case None
    then show ?thesis by (simp add: mergeLoop.simps[of result])
  next
    case (Some r)
    from outerScan_mergeStep[OF Some] "1.IH"[OF Some] Some show ?thesis
      by (simp add: mergeLoop.simps[of result] converse_rtranclp_into_rtranclp)
  qed
qed

lemma mergeLoop_normal: "mergeNormal (mset (mergeLoop result))"
  unfolding mergeNormal_def using outerScan_None_normal[OF mergeLoop_fixpoint] by blast

lemma mergeStep_covers:
  "mergeStep M N \<Longrightarrow> b \<in># M \<Longrightarrow> \<exists>c. c \<in># N \<and> boxContains c b"
proof -
  assume "mergeStep M N" and b: "b \<in># M"
  then obtain p q R where s: "M = add_mset p (add_mset q R)" "N = add_mset (mergedBox p q) R"
    unfolding mergeStep_def by blast
  from b s(1) consider "b = p" | "b = q" | "b \<in># R" by auto
  then show ?thesis
  proof cases
    case 1
    with s(2) mergedBox_contains_left[of p q] show ?thesis by auto
  next
    case 2
    with s(2) mergedBox_contains_right[of p q] show ?thesis by auto
  next
    case 3
    with s(2) boxContains_refl[of b] show ?thesis by auto
  qed
qed

lemma reaches_covers:
  "mergeStep\<^sup>*\<^sup>* M N \<Longrightarrow> b \<in># M \<Longrightarrow> \<exists>c. c \<in># N \<and> boxContains c b"
proof (induction rule: rtranclp_induct)
  case base
  then show ?case using boxContains_refl by blast
next
  case (step N N')
  then obtain c where c: "c \<in># N" "boxContains c b" by blast
  from mergeStep_covers[OF step.hyps(2) c(1)] obtain c' where "c' \<in># N'" "boxContains c' c"
    by blast
  with c(2) boxContains_trans show ?case by blast
qed

lemma ex_merge: "mergeOverlappingBoxes [exBoxA, exBoxB, exBoxC] = [\<lparr>box_x = 0, box_y = 0, box_width = 10, box_height = 10\<rparr>]"
  by (simp add: mergeOverlappingBoxes_def mergeLoop.simps outerScan.simps innerScan.simps
      doBoxesIntersect_def mergedBox_def splice1_def exBoxA_def exBoxB_def exBoxC_def)

lemma closureClass_C: "closureClass [exBoxA, exBoxB, exBoxC] exBoxC = {exBoxC}"
proof -
  let ?xs = "[exBoxA, exBoxB, exBoxC]"
  have step: "\<And>z. (exBoxC, z) \<in> overlapRel ?xs \<Longrightarrow> z = exBoxC"
    by (auto simp: overlapRel_def doBoxesIntersect_def exBoxA_def exBoxB_def exBoxC_def)
  have "\<And>b. (exBoxC, b) \<in> (overlapRel ?xs)\<^sup>* \<Longrightarrow> b = exBoxC"
  proof -
    fix b assume "(exBoxC, b) \<in> (overlapRel ?xs)\<^sup>*"
    then show "b = exBoxC"
      by (induction rule: rtrancl_induct) (auto dest: step)
  qed
  then show ?thesis unfolding closureClass_def by auto
qed

lemma unionBox_single: "unionBox {b} = b"
  by (simp add: unionBox_def)

lemma normal_distinct:
  assumes "mergeNormal (mset out)" "c \<in> set out" "c' \<in> set out" "doBoxesIntersect c c'"
  shows "c = c'"
proof (rule ccontr)
  assume ne: "c \<noteq> c'"
  from assms(2) obtain R where r: "mset out = add_mset c R" by (metis in_multiset_in_set mset_add)
  with assms(3) ne have "c' \<in># R" by (metis in_multiset_in_set insert_iff set_mset_add_mset_insert)
  then obtain R' where "R = add_mset c' R'" by (metis mset_add)
  with r assms(4) have "mergeStep (mset out) (add_mset (mergedBox c c') R')"
    unfolding mergeStep_def by blast
  with assms(1) show False unfolding mergeNormal_def by blast
qed

lemma class_in_one_box:
  assumes a: "a \<in> set boxes"
  shows "\<exists>c \<in> set (mergeLoop boxes). \<forall>b \<in> closureClass boxes a. boxContains c b"
proof -
  let ?out = "mergeLoop boxes"
  have cover: "\<And>b. b \<in> set boxes \<Longrightarrow> \<exists>c \<in> set ?out. boxContains c b"
    using reaches_covers[OF mergeLoop_reaches[of boxes]] by (metis in_multiset_in_set)
  from cover[OF a] obtain c where c: "c \<in> set ?out" "boxContains c a" by blast
  have "\<And>b. (a, b) \<in> (overlapRel boxes)\<^sup>* \<Longrightarrow> boxContains c b"
  proof -
    fix b assume "(a, b) \<in> (overlapRel boxes)\<^sup>*"
    then show "boxContains c b"
    proof (induction rule: rtrancl_induct)
      case base
      show ?case by (rule c(2))
    next
      case (step y z)
      then have yz: "z \<in> set boxes" "doBoxesIntersect y z" unfolding overlapRel_def by auto
      from cover[OF yz(1)] obtain c' where c': "c' \<in> set ?out" "boxContains c' z" by blast
      have "doBoxesIntersect c c'" using yz(2) step.IH c'(2) by (rule intersect_mono)
      with normal_distinct[OF mergeLoop_normal c(1) c'(1)] have "c = c'" by blast
      with c'(2) show ?case by simp
    qed
  qed
  with c(1) show ?thesis unfolding closureClass_def by blast
qed

lemma tightBox_refl: "b \<in># M \<Longrightarrow> tightBox M b"
  unfolding tightBox_def using boxContains_refl by blast

lemma tightBox_mergedBox:
  assumes "tightBox M a" "tightBox M b"
  shows "tightBox M (mergedBox a b)"
proof -
  let ?c = "mergedBox a b"
  have ca: "\<And>d. boxContains a d \<Longrightarrow> boxContains ?c d"
    using mergedBox_contains_left boxContains_trans by blast
  have cb: "\<And>d. boxContains b d \<Longrightarrow> boxContains ?c d"
    using mergedBox_contains_right boxContains_trans by blast
  have x: "box_x ?c = box_x a \<or> box_x ?c = box_x b"
    and y: "box_y ?c = box_y a \<or> box_y ?c = box_y b"
    and r: "box_x ?c + box_width ?c = box_x a + box_width a \<or>
            box_x ?c + box_width ?c = box_x b + box_width b"
    and s: "box_y ?c + box_height ?c = box_y a + box_height a \<or>
            box_y ?c + box_height ?c = box_y b + box_height b"
    by (auto simp: mergedBox_def Let_def min_def max_def)
  have 1: "\<exists>d. d \<in># M \<and> boxContains ?c d \<and> box_x d = box_x ?c"
    using x assms ca cb unfolding tightBox_def by metis
  have 2: "\<exists>d. d \<in># M \<and> boxContains ?c d \<and> box_y d = box_y ?c"
    using y assms ca cb unfolding tightBox_def by metis
  have 3: "\<exists>d. d \<in># M \<and> boxContains ?c d \<and> box_x d + box_width d = box_x ?c + box_width ?c"
    using r assms ca cb unfolding tightBox_def by metis
  have 4: "\<exists>d. d \<in># M \<and> boxContains ?c d \<and> box_y d + box_height d = box_y ?c + box_height ?c"
    using s assms ca cb unfolding tightBox_def by metis
  from 1 2 3 4 show ?thesis unfolding tightBox_def by blast
qed

lemma reaches_tight: "mergeStep\<^sup>*\<^sup>* M N \<Longrightarrow> c \<in># N \<Longrightarrow> tightBox M c"
proof (induction arbitrary: c rule: rtranclp_induct)
  case base
  then show ?case by (rule tightBox_refl)
next
  case (step N N')
  from step.hyps(2) obtain p q R where s: "N = add_mset p (add_mset q R)"
    "N' = add_mset (mergedBox p q) R" unfolding mergeStep_def by blast
  from step.prems s(2) consider "c = mergedBox p q" | "c \<in># R" by auto
  then show ?case
  proof cases
    case 1
    have "tightBox M p" "tightBox M q" using step.IH s(1) by simp_all
    with 1 show ?thesis by (simp add: tightBox_mergedBox)
  next
    case 2
    with s(1) step.IH show ?thesis by simp
  qed
qed

lemma tight_unionBox:
  assumes "tightBox (mset boxes) c"
  shows "c = unionBox {b \<in> set boxes. boxContains c b}"
proof -
  let ?S = "{b \<in> set boxes. boxContains c b}"
  have fin: "finite ?S" by simp
  from assms obtain b1 b2 b3 b4 where
    b1: "b1 \<in> ?S" "box_x b1 = box_x c" and b2: "b2 \<in> ?S" "box_y b2 = box_y c" and
    b3: "b3 \<in> ?S" "box_x b3 + box_width b3 = box_x c + box_width c" and
    b4: "b4 \<in> ?S" "box_y b4 + box_height b4 = box_y c + box_height c"
    unfolding tightBox_def by auto
  have x: "Min (box_x ` ?S) = box_x c"
  proof (rule Min_eqI)
    show "finite (box_x ` ?S)" by simp
    show "\<And>v. v \<in> box_x ` ?S \<Longrightarrow> box_x c \<le> v" by (auto simp: boxContains_def)
    show "box_x c \<in> box_x ` ?S" using b1 by (metis image_eqI)
  qed
  have y: "Min (box_y ` ?S) = box_y c"
  proof (rule Min_eqI)
    show "finite (box_y ` ?S)" by simp
    show "\<And>v. v \<in> box_y ` ?S \<Longrightarrow> box_y c \<le> v" by (auto simp: boxContains_def)
    show "box_y c \<in> box_y ` ?S" using b2 by (metis image_eqI)
  qed
  have r: "Max ((\<lambda>b. box_x b + box_width b) ` ?S) = box_x c + box_width c"
  proof (rule Max_eqI)
    show "finite ((\<lambda>b. box_x b + box_width b) ` ?S)" by simp
    show "\<And>v. v \<in> (\<lambda>b. box_x b + box_width b) ` ?S \<Longrightarrow> v \<le> box_x c + box_width c"
      by (auto simp: boxContains_def)
    show "box_x c + box_width c \<in> (\<lambda>b. box_x b + box_width b) ` ?S"
      using b3 by (metis (mono_tags, lifting) image_eqI)
  qed
  have s: "Max ((\<lambda>b. box_y b + box_height b) ` ?S) = box_y c + box_height c"
  proof (rule Max_eqI)
    show "finite ((\<lambda>b. box_y b + box_height b) ` ?S)" by simp
    show "\<And>v. v \<in> (\<lambda>b. box_y b + box_height b) ` ?S \<Longrightarrow> v \<le> box_y c + box_height c"
      by (auto simp: boxContains_def)
    show "box_y c + box_height c \<in> (\<lambda>b. box_y b + box_height b) ` ?S"
      using b4 by (metis (mono_tags, lifting) image_eqI)
  qed
  show ?thesis unfolding unionBox_def Let_def x y r s by simp
qed

lemma unionBox_contains:
  assumes "finite S" "b \<in> S"
  shows "boxContains (unionBox S) b"
proof -
  have "Min (box_x ` S) \<le> box_x b" "Min (box_y ` S) \<le> box_y b"
    "box_x b + box_width b \<le> Max ((\<lambda>b. box_x b + box_width b) ` S)"
    "box_y b + box_height b \<le> Max ((\<lambda>b. box_y b + box_height b) ` S)"
    using assms by simp_all
  then show ?thesis by (simp add: unionBox_def Let_def boxContains_def)
qed

lemma unionBox_least:
  assumes "finite S" "S \<noteq> {}" "\<And>b. b \<in> S \<Longrightarrow> boxContains c b"
  shows "boxContains c (unionBox S)"
proof -
  have "box_x c \<le> Min (box_x ` S)" "box_y c \<le> Min (box_y ` S)"
    "Max ((\<lambda>b. box_x b + box_width b) ` S) \<le> box_x c + box_width c"
    "Max ((\<lambda>b. box_y b + box_height b) ` S) \<le> box_y c + box_height c"
    using assms by (auto simp: boxContains_def)
  then show ?thesis by (simp add: unionBox_def Let_def boxContains_def)
qed

lemma mergedBox_least:
  "boxContains c a \<Longrightarrow> boxContains c b \<Longrightarrow> boxContains c (mergedBox a b)"
  by (auto simp: boxContains_def mergedBox_def Let_def)

lemma boxContains_antisym: "boxContains a b \<Longrightarrow> boxContains b a \<Longrightarrow> a = b"
  by (cases a, cases b) (auto simp: boxContains_def)

lemma positive_self_intersect:
  "0 < box_width b \<Longrightarrow> 0 < box_height b \<Longrightarrow> doBoxesIntersect b b"
  by (simp add: doBoxesIntersect_def)

lemma closureClass_self: "a \<in> set boxes \<Longrightarrow> a \<in> closureClass boxes a"
  by (simp add: closureClass_def)

lemma closureClass_finite: "finite (closureClass boxes a)"
  by (simp add: closureClass_def)

lemma reaches_below_closure:
  assumes H: "\<And>u v. u \<in> closureMerge boxes \<Longrightarrow> v \<in> closureMerge boxes \<Longrightarrow>
                doBoxesIntersect u v \<Longrightarrow> u = v"
  shows "mergeStep\<^sup>*\<^sup>* (mset boxes) N \<Longrightarrow> c \<in># N \<Longrightarrow>
         \<exists>u \<in> closureMerge boxes. boxContains u c"
proof (induction arbitrary: c rule: rtranclp_induct)
  case base
  then have c: "c \<in> set boxes" by simp
  then have "boxContains (unionBox (closureClass boxes c)) c"
    by (simp add: unionBox_contains closureClass_finite closureClass_self)
  with c show ?case unfolding closureMerge_def by blast
next
  case (step N N')
  from step.hyps(2) obtain p q R where s: "N = add_mset p (add_mset q R)"
    "doBoxesIntersect p q" "N' = add_mset (mergedBox p q) R" unfolding mergeStep_def by blast
  from step.prems s(3) consider "c = mergedBox p q" | "c \<in># R" by auto
  then show ?case
  proof cases
    case 1
    from step.IH[of p] step.IH[of q] s(1) obtain u v where
      u: "u \<in> closureMerge boxes" "boxContains u p" and
      v: "v \<in> closureMerge boxes" "boxContains v q" by auto
    have "doBoxesIntersect u v" using s(2) u(2) v(2) by (rule intersect_mono)
    with H u(1) v(1) have "u = v" by blast
    with u v 1 mergedBox_least show ?thesis by blast
  next
    case 2
    with s(1) step.IH show ?thesis by simp
  qed
qed

lemma merge_equals_closure:
  assumes P: "\<And>b. b \<in> set boxes \<Longrightarrow> 0 < box_width b \<and> 0 < box_height b"
    and H: "\<And>u v. u \<in> closureMerge boxes \<Longrightarrow> v \<in> closureMerge boxes \<Longrightarrow>
                doBoxesIntersect u v \<Longrightarrow> u = v"
  shows "set (mergeLoop boxes) = closureMerge boxes"
proof -
  let ?out = "mergeLoop boxes"
  let ?U = "\<lambda>a. unionBox (closureClass boxes a)"
  have below: "\<And>c. c \<in> set ?out \<Longrightarrow> \<exists>u \<in> closureMerge boxes. boxContains u c"
    using reaches_below_closure[OF H mergeLoop_reaches] by (metis in_multiset_in_set)
  have Uin: "\<And>a. a \<in> set boxes \<Longrightarrow> ?U a \<in> closureMerge boxes"
    unfolding closureMerge_def by blast
  have Ua: "\<And>a. a \<in> set boxes \<Longrightarrow> boxContains (?U a) a"
    by (simp add: unionBox_contains closureClass_finite closureClass_self)
  have key: "\<And>a c. a \<in> set boxes \<Longrightarrow> c \<in> set ?out \<Longrightarrow>
                (\<And>b. b \<in> closureClass boxes a \<Longrightarrow> boxContains c b) \<Longrightarrow> c = ?U a"
  proof -
    fix a c assume a: "a \<in> set boxes" and c: "c \<in> set ?out"
      and all: "\<And>b. b \<in> closureClass boxes a \<Longrightarrow> boxContains c b"
    have ne: "closureClass boxes a \<noteq> {}" using closureClass_self[OF a] by blast
    have lo: "boxContains c (?U a)"
      using closureClass_finite ne all by (rule unionBox_least)
    from below[OF c] obtain u where u: "u \<in> closureMerge boxes" "boxContains u c" by blast
    have "doBoxesIntersect a a" using P[OF a] by (simp add: positive_self_intersect)
    then have "doBoxesIntersect (?U a) u"
      using Ua[OF a] boxContains_trans[OF u(2) all[OF closureClass_self[OF a]]]
      by (rule intersect_mono)
    with H Uin[OF a] u(1) have "?U a = u" by blast
    with u(2) lo show "c = ?U a" by (simp add: boxContains_antisym)
  qed
  show ?thesis
  proof (intro equalityI subsetI)
    fix c assume c: "c \<in> set ?out"
    then have "tightBox (mset boxes) c"
      using reaches_tight[OF mergeLoop_reaches[of boxes]] by simp
    then obtain b where b: "b \<in> set boxes" "boxContains c b" unfolding tightBox_def by auto
    from class_in_one_box[OF b(1)] obtain c' where
      c': "c' \<in> set ?out" "\<And>d. d \<in> closureClass boxes b \<Longrightarrow> boxContains c' d" by blast
    have "doBoxesIntersect b b" using P[OF b(1)] by (simp add: positive_self_intersect)
    then have "doBoxesIntersect c c'"
      using b(2) c'(2)[OF closureClass_self[OF b(1)]] by (rule intersect_mono)
    with normal_distinct[OF mergeLoop_normal c c'(1)] have "c = c'" by blast
    with key[OF b(1) c] c'(2) have "c = ?U b" by blast
    with Uin[OF b(1)] show "c \<in> closureMerge boxes" by simp
  next
    fix u assume "u \<in> closureMerge boxes"
    then obtain a where a: "a \<in> set boxes" "u = ?U a" unfolding closureMerge_def by blast
    from class_in_one_box[OF a(1)] obtain c where
      c: "c \<in> set ?out" "\<And>d. d \<in> closureClass boxes a \<Longrightarrow> boxContains c d" by blast
    from key[OF a(1) c(1) c(2)] a(2) c(1) show "u \<in> set ?out" by simp
  qed
qed

subsection \<open>The claims about the merge\<close>

text \<open>
  C7. Merging is idempotent: running \<open>mergeOverlappingBoxes\<close> on its own output returns
  that output unchanged, as a list and therefore also as an unordered set of boxes.
\<close>

theorem merge_idempotent:
  "mergeOverlappingBoxes (mergeOverlappingBoxes boxes) = mergeOverlappingBoxes boxes \<and>
   set (mergeOverlappingBoxes (mergeOverlappingBoxes boxes)) = set (mergeOverlappingBoxes boxes)"
proof -
  have "mergeLoop (mergeLoop boxes) = mergeLoop boxes"
    by (rule mergeLoop_None) (rule mergeLoop_fixpoint)
  then show ?thesis unfolding mergeOverlappingBoxes_def by simp
qed

text \<open>
  C6. Merging is order-insensitive: two lists holding the same boxes in a different order
  (the same multiset) are merged to the same boxes, as multisets and so as unordered sets.
\<close>

theorem merge_order_insensitive:
  assumes "mset boxes' = mset boxes"
  shows "mset (mergeOverlappingBoxes boxes') = mset (mergeOverlappingBoxes boxes) \<and>
         set (mergeOverlappingBoxes boxes') = set (mergeOverlappingBoxes boxes)"
proof -
  have "mset (mergeLoop boxes') = mset (mergeLoop boxes)"
    using mergeLoop_reaches[of boxes'] mergeLoop_normal[of boxes']
      mergeLoop_reaches[of boxes] mergeLoop_normal[of boxes] assms
    by (metis normal_form_unique)
  then show ?thesis unfolding mergeOverlappingBoxes_def by (metis set_mset_mset)
qed

theorem merge_order_insensitive_witness:
  "mset [exBoxC, exBoxB, exBoxA] = mset [exBoxA, exBoxB, exBoxC] \<and>
   set (mergeOverlappingBoxes [exBoxC, exBoxB, exBoxA]) =
     {\<lparr>box_x = 0, box_y = 0, box_width = 10, box_height = 10\<rparr>}"
proof -
  have p: "mset [exBoxC, exBoxB, exBoxA] = mset [exBoxA, exBoxB, exBoxC]" by simp
  from merge_order_insensitive[OF p] ex_merge p show ?thesis by simp
qed

text \<open>
  C10. Every box of the input is geometrically contained in some box of the output.
\<close>

theorem merge_covers_inputs:
  "\<forall>b \<in> set boxes. \<exists>c \<in> set (mergeOverlappingBoxes boxes). boxContains c b"
proof
  fix b assume "b \<in> set boxes"
  then have "b \<in># mset boxes" by simp
  from reaches_covers[OF mergeLoop_reaches this]
  show "\<exists>c \<in> set (mergeOverlappingBoxes boxes). boxContains c b"
    unfolding mergeOverlappingBoxes_def by auto
qed

theorem merge_covers_inputs_witness:
  "exBoxC \<in> set [exBoxA, exBoxB, exBoxC] \<and>
   (\<exists>c \<in> set (mergeOverlappingBoxes [exBoxA, exBoxB, exBoxC]). boxContains c exBoxC)"
proof -
  have m: "exBoxC \<in> set [exBoxA, exBoxB, exBoxC]" by simp
  from merge_covers_inputs[of "[exBoxA, exBoxB, exBoxC]"] m show ?thesis by blast
qed

text \<open>
  C1, as the specification states it: the boxes returned are the bounding-box unions of the
  classes of the transitive closure of the overlap relation on the input. It fails on an
  L-shaped pair with a small box in the free corner: the small box overlaps neither arm,
  so it is a class of its own, but it overlaps the union of the two arms and the loop
  merges it.
\<close>

theorem merge_closure_counterexample:
  "set (mergeOverlappingBoxes [exBoxA, exBoxB, exBoxC]) \<noteq> closureMerge [exBoxA, exBoxB, exBoxC]"
proof -
  have "exBoxC \<in> closureMerge [exBoxA, exBoxB, exBoxC]"
    unfolding closureMerge_def using closureClass_C unionBox_single[of exBoxC]
    by (metis image_eqI list.set_intros(1,2))
  moreover have "exBoxC \<notin> set (mergeOverlappingBoxes [exBoxA, exBoxB, exBoxC])"
    unfolding ex_merge by (simp add: exBoxC_def)
  ultimately show ?thesis by blast
qed

text \<open>
  C1, amended. The output is a fixpoint of the merge: no two output boxes intersect; every
  class of the transitive closure lies inside one output box; every output box is the
  bounding-box union of the input boxes it contains. So the output partition is the
  closure partition or a coarsening of it. The two coincide when every input box has
  positive width and height and the unions of the closure classes do not intersect each
  other.
\<close>

theorem merge_closure_amended:
  "(\<forall>i j. i < j \<and> j < length (mergeOverlappingBoxes boxes) \<longrightarrow>
      \<not> doBoxesIntersect (mergeOverlappingBoxes boxes ! i) (mergeOverlappingBoxes boxes ! j)) \<and>
   (\<forall>a \<in> set boxes. \<exists>c \<in> set (mergeOverlappingBoxes boxes).
      \<forall>b \<in> closureClass boxes a. boxContains c b) \<and>
   (\<forall>c \<in> set (mergeOverlappingBoxes boxes).
      (\<exists>b \<in> set boxes. boxContains c b) \<and> c = unionBox {b \<in> set boxes. boxContains c b}) \<and>
   ((\<forall>b \<in> set boxes. 0 < box_width b \<and> 0 < box_height b) \<and>
    (\<forall>u \<in> closureMerge boxes. \<forall>v \<in> closureMerge boxes. doBoxesIntersect u v \<longrightarrow> u = v) \<longrightarrow>
    set (mergeOverlappingBoxes boxes) = closureMerge boxes)"
proof (intro conjI)
  show "\<forall>i j. i < j \<and> j < length (mergeOverlappingBoxes boxes) \<longrightarrow>
      \<not> doBoxesIntersect (mergeOverlappingBoxes boxes ! i) (mergeOverlappingBoxes boxes ! j)"
    unfolding mergeOverlappingBoxes_def
    using outerScan_None[OF mergeLoop_fixpoint[of boxes]] by blast
next
  show "\<forall>a \<in> set boxes. \<exists>c \<in> set (mergeOverlappingBoxes boxes).
      \<forall>b \<in> closureClass boxes a. boxContains c b"
    unfolding mergeOverlappingBoxes_def using class_in_one_box by blast
next
  show "\<forall>c \<in> set (mergeOverlappingBoxes boxes).
      (\<exists>b \<in> set boxes. boxContains c b) \<and> c = unionBox {b \<in> set boxes. boxContains c b}"
  proof
    fix c assume "c \<in> set (mergeOverlappingBoxes boxes)"
    then have t: "tightBox (mset boxes) c"
      unfolding mergeOverlappingBoxes_def
      using reaches_tight[OF mergeLoop_reaches[of boxes]] by simp
    then have "\<exists>b \<in> set boxes. boxContains c b" unfolding tightBox_def by auto
    with tight_unionBox[OF t]
    show "(\<exists>b \<in> set boxes. boxContains c b) \<and> c = unionBox {b \<in> set boxes. boxContains c b}"
      by blast
  qed
next
  show "(\<forall>b \<in> set boxes. 0 < box_width b \<and> 0 < box_height b) \<and>
    (\<forall>u \<in> closureMerge boxes. \<forall>v \<in> closureMerge boxes. doBoxesIntersect u v \<longrightarrow> u = v) \<longrightarrow>
    set (mergeOverlappingBoxes boxes) = closureMerge boxes"
    unfolding mergeOverlappingBoxes_def using merge_equals_closure[of boxes] by blast
qed

lemma closureMerge_AB:
  "closureMerge [exBoxA, exBoxB] = {\<lparr>box_x = 0, box_y = 0, box_width = 10, box_height = 10\<rparr>}"
proof -
  let ?xs = "[exBoxA, exBoxB]"
  have ab: "(exBoxA, exBoxB) \<in> overlapRel ?xs" and ba: "(exBoxB, exBoxA) \<in> overlapRel ?xs"
    by (simp_all add: overlapRel_def doBoxesIntersect_def exBoxA_def exBoxB_def)
  have a: "closureClass ?xs exBoxA = {exBoxA, exBoxB}"
    unfolding closureClass_def using ab by auto
  have b: "closureClass ?xs exBoxB = {exBoxA, exBoxB}"
    unfolding closureClass_def using ba by auto
  have u: "unionBox {exBoxA, exBoxB} = \<lparr>box_x = 0, box_y = 0, box_width = 10, box_height = 10\<rparr>"
    by (simp add: unionBox_def exBoxA_def exBoxB_def)
  show ?thesis unfolding closureMerge_def by (simp add: a b u)
qed

theorem merge_closure_amended_witness:
  "0 < box_width exBoxA \<and> 0 < box_height exBoxA \<and> 0 < box_width exBoxB \<and>
   0 < box_height exBoxB \<and>
   closureMerge [exBoxA, exBoxB] = {\<lparr>box_x = 0, box_y = 0, box_width = 10, box_height = 10\<rparr>} \<and>
   set (mergeOverlappingBoxes [exBoxA, exBoxB]) = closureMerge [exBoxA, exBoxB]"
proof -
  have P: "\<forall>b \<in> set [exBoxA, exBoxB]. 0 < box_width b \<and> 0 < box_height b"
    by (simp add: exBoxA_def exBoxB_def)
  have H: "\<forall>u \<in> closureMerge [exBoxA, exBoxB]. \<forall>v \<in> closureMerge [exBoxA, exBoxB].
             doBoxesIntersect u v \<longrightarrow> u = v"
    unfolding closureMerge_AB by simp
  from merge_closure_amended[of "[exBoxA, exBoxB]"] P H
  have "set (mergeOverlappingBoxes [exBoxA, exBoxB]) = closureMerge [exBoxA, exBoxB]" by blast
  with P closureMerge_AB show ?thesis by simp
qed

section \<open>Properties of background removal\<close>

lemma length_removeLoop [simp]: "length (removeLoop data r0 g0 b0 tol i) = length data"
proof (induction data r0 g0 b0 tol i rule: removeLoop.induct)
  case (1 data r0 g0 b0 tol i)
  then show ?case by (simp add: removeLoop.simps[of data r0 g0 b0 tol i])
qed

lemma rd_update_other: "j \<noteq> k \<Longrightarrow> rd (data[k := v]) j = rd data j"
  by (simp add: rd_def)

lemma withinTolerance_removeStep:
  assumes "4 dvd i" "4 dvd j"
  shows "withinTolerance (removeStep data r0 g0 b0 tol i) r0 g0 b0 tol j =
         withinTolerance data r0 g0 b0 tol j"
proof -
  from assms have n: "j \<noteq> i + 3" "j + 1 \<noteq> i + 3" "j + 2 \<noteq> i + 3" by presburger+
  have e: "rd (data[i + 3 := 0]) j = rd data j" "rd (data[i + 3 := 0]) (j + 1) = rd data (j + 1)"
    "rd (data[i + 3 := 0]) (j + 2) = rd data (j + 2)"
    by (rule rd_update_other, rule n)+
  show ?thesis
  proof (cases "withinTolerance data r0 g0 b0 tol i")
    case True
    then have "removeStep data r0 g0 b0 tol i = data[i + 3 := 0]" by (simp add: removeStep_def)
    then show ?thesis unfolding withinTolerance_def by (simp only: e)
  next
    case False
    then show ?thesis by (simp add: removeStep_def)
  qed
qed

lemma removeLoop_nth:
  "4 dvd i \<Longrightarrow> k < length data \<Longrightarrow>
   removeLoop data r0 g0 b0 tol i ! k =
     (if i \<le> k \<and> k mod 4 = 3 \<and> withinTolerance data r0 g0 b0 tol (k - 3) then 0 else data ! k)"
proof (induction data r0 g0 b0 tol i rule: removeLoop.induct)
  case (1 data r0 g0 b0 tol i)
  let ?d = "removeStep data r0 g0 b0 tol i"
  show ?case
  proof (cases "i < length data")
    case False
    with "1.prems" show ?thesis by (simp add: removeLoop.simps[of data r0 g0 b0 tol i])
  next
    case True
    have dv: "4 dvd i + 4" using "1.prems"(1) by simp
    have kl: "k < length ?d" using "1.prems"(2) by simp
    have eq: "removeLoop data r0 g0 b0 tol i ! k =
        (if i + 4 \<le> k \<and> k mod 4 = 3 \<and> withinTolerance ?d r0 g0 b0 tol (k - 3) then 0 else ?d ! k)"
      using "1.IH"[OF True dv kl] True by (simp add: removeLoop.simps[of data r0 g0 b0 tol i])
    show ?thesis
    proof (cases "k mod 4 = 3")
      case False
      then have "k \<noteq> i + 3" using "1.prems"(1) by presburger
      with False eq show ?thesis by (simp add: removeStep_def)
    next
      case k3: True
      then have d3: "4 dvd k - 3" by presburger
      have w: "withinTolerance ?d r0 g0 b0 tol (k - 3) = withinTolerance data r0 g0 b0 tol (k - 3)"
        using "1.prems"(1) d3 by (rule withinTolerance_removeStep)
      show ?thesis
      proof (cases "i + 4 \<le> k")
        case True
        then have "k \<noteq> i + 3" by simp
        with True eq w k3 show ?thesis by (simp add: removeStep_def)
      next
        case False
        show ?thesis
        proof (cases "i \<le> k")
          case True
          with False k3 "1.prems"(1) have "k = i + 3" by presburger
          with eq "1.prems"(2) k3 show ?thesis by (simp add: removeStep_def)
        next
          case False
          then have "k \<noteq> i + 3" by simp
          with False eq show ?thesis by (simp add: removeStep_def)
        qed
      qed
    qed
  qed
qed

lemma distance_le_iff:
  "0 \<le> t \<Longrightarrow> distance r g b r0 g0 b0 \<le> t \<longleftrightarrow> real_of_int (sqDistance r g b r0 g0 b0) \<le> t\<^sup>2"
proof -
  assume t: "0 \<le> t"
  have nn: "0 \<le> real_of_int (sqDistance r g b r0 g0 b0)" by (simp add: sqDistance_def)
  have "distance r g b r0 g0 b0 = sqrt (real_of_int (sqDistance r g b r0 g0 b0))"
    by (simp add: distance_def sqDistance_def)
  moreover have "sqrt (real_of_int (sqDistance r g b r0 g0 b0)) \<le> t \<longleftrightarrow>
      real_of_int (sqDistance r g b r0 g0 b0) \<le> t\<^sup>2"
    using t nn by (metis real_sqrt_le_iff real_sqrt_abs abs_of_nonneg)
  ultimately show ?thesis by simp
qed

lemma distance_neg: "t < 0 \<Longrightarrow> \<not> distance r g b r0 g0 b0 \<le> t"
proof -
  assume "t < 0"
  moreover have "0 \<le> distance r g b r0 g0 b0" by (simp add: distance_def)
  ultimately show ?thesis by linarith
qed

lemma byte_diff_sq: "(uint v - uint w)\<^sup>2 \<le> 65025" for v w :: "8 word"
proof -
  have "0 \<le> uint v" "uint v < 256" "0 \<le> uint w" "uint w < 256"
    using uint_lt2p[of v] uint_lt2p[of w] by simp_all
  then have "\<bar>uint v - uint w\<bar> \<le> 255" by linarith
  then have "(uint v - uint w)\<^sup>2 \<le> (255::int)\<^sup>2"
    using power2_le_iff_abs_le[of 255 "uint v - uint w"] by simp
  then show ?thesis by simp
qed

lemma sqDistance_bound: "sqDistance r g b r0 g0 b0 \<le> 195075"
  using byte_diff_sq[of r r0] byte_diff_sq[of g g0] byte_diff_sq[of b b0]
  unfolding sqDistance_def by linarith

lemma sqDistance_zero:
  "sqDistance r g b r0 g0 b0 \<le> 0 \<longleftrightarrow> r = r0 \<and> g = g0 \<and> b = b0"
proof -
  have "0 \<le> (uint r - uint r0)\<^sup>2" "0 \<le> (uint g - uint g0)\<^sup>2" "0 \<le> (uint b - uint b0)\<^sup>2"
    by simp_all
  then have "sqDistance r g b r0 g0 b0 \<le> 0 \<longleftrightarrow>
     (uint r - uint r0)\<^sup>2 = 0 \<and> (uint g - uint g0)\<^sup>2 = 0 \<and> (uint b - uint b0)\<^sup>2 = 0"
    unfolding sqDistance_def by linarith
  then show ?thesis by (simp add: word_uint_eq_iff)
qed

text \<open>What the call does to the alpha byte of pixel \<open>p\<close> on a well-formed canvas.\<close>

lemma removeBackground_alpha:
  assumes wf: "wfCanvas c" and ctx: "cv_has2d c" and sz: "0 < cv_width c" "0 < cv_height c"
    and a0: "cv_data c ! 3 \<noteq> 0" and t: "0 \<le> t"
  shows "\<exists>c'. removeBackground c t = Inr c' \<and>
           (\<forall>p < cv_width c * cv_height c.
              cv_data c' ! (4 * p + 3) =
                (if real_of_int (sqDistance (cv_data c ! (4 * p)) (cv_data c ! (4 * p + 1))
                     (cv_data c ! (4 * p + 2)) (cv_data c ! 0) (cv_data c ! 1) (cv_data c ! 2)) \<le> t\<^sup>2
                 then 0 else cv_data c ! (4 * p + 3)))"
proof -
  let ?d = "cv_data c"
  have len: "length ?d = 4 * (cv_width c * cv_height c)" using wf by (simp add: wfCanvas_def)
  have pos: "0 < cv_width c * cv_height c" using sz by simp
  then have l4: "4 \<le> length ?d" using len by linarith
  have r0: "rd ?d 0 = Some (?d ! 0)" "rd ?d 1 = Some (?d ! 1)" "rd ?d 2 = Some (?d ! 2)"
    "rd ?d 3 = Some (?d ! 3)" using l4 by (auto simp: rd_def)
  let ?c' = "c\<lparr>cv_data := removeLoop ?d (Some (?d ! 0)) (Some (?d ! 1)) (Some (?d ! 2)) t 0\<rparr>"
  have run: "removeBackground c t = Inr ?c'"
    using ctx sz a0 r0 by (simp add: removeBackground_def getImageData_def Let_def)
  have "\<And>p. p < cv_width c * cv_height c \<Longrightarrow>
      cv_data ?c' ! (4 * p + 3) =
        (if real_of_int (sqDistance (?d ! (4 * p)) (?d ! (4 * p + 1)) (?d ! (4 * p + 2))
              (?d ! 0) (?d ! 1) (?d ! 2)) \<le> t\<^sup>2
         then 0 else ?d ! (4 * p + 3))"
  proof -
    fix p assume p: "p < cv_width c * cv_height c"
    then have k: "4 * p + 3 < length ?d" using len by linarith
    have m: "(4 * p + 3) mod 4 = 3" by presburger
    have rdp: "rd ?d (4 * p) = Some (?d ! (4 * p))" "rd ?d (4 * p + 1) = Some (?d ! (4 * p + 1))"
      "rd ?d (4 * p + 2) = Some (?d ! (4 * p + 2))" using k by (simp_all add: rd_def)
    have w: "withinTolerance ?d (Some (?d ! 0)) (Some (?d ! 1)) (Some (?d ! 2)) t (4 * p) \<longleftrightarrow>
       real_of_int (sqDistance (?d ! (4 * p)) (?d ! (4 * p + 1)) (?d ! (4 * p + 2))
              (?d ! 0) (?d ! 1) (?d ! 2)) \<le> t\<^sup>2"
      unfolding withinTolerance_def rdp using distance_le_iff[OF t] by simp
    from removeLoop_nth[OF _ k, of 0 "Some (?d ! 0)" "Some (?d ! 1)" "Some (?d ! 2)" t] m w
    show "cv_data ?c' ! (4 * p + 3) =
        (if real_of_int (sqDistance (?d ! (4 * p)) (?d ! (4 * p + 1)) (?d ! (4 * p + 2))
              (?d ! 0) (?d ! 1) (?d ! 2)) \<le> t\<^sup>2
         then 0 else ?d ! (4 * p + 3))" by simp
  qed
  with run show ?thesis by blast
qed

lemmas removeBackground_eval =
  removeBackground_def getImageData_def Let_def removeLoop.simps removeStep_def
  withinTolerance_def rd_def distance_le_iff sqDistance_def

lemma removeBackground_BW_441:
  "removeBackground exCanvasBW 441 =
     Inr (exCanvasBW\<lparr>cv_data := [255, 255, 255, 0, 0, 0, 0, 255]\<rparr>)"
  by (simp add: exCanvasBW_def removeBackground_eval)

lemma removeBackground_BW_0:
  "removeBackground exCanvasBW 0 =
     Inr (exCanvasBW\<lparr>cv_data := [255, 255, 255, 0, 0, 0, 0, 255]\<rparr>)"
  by (simp add: exCanvasBW_def removeBackground_eval)

lemma removeBackground_BW_442:
  "removeBackground exCanvasBW 442 =
     Inr (exCanvasBW\<lparr>cv_data := [255, 255, 255, 0, 0, 0, 0, 0]\<rparr>)"
  by (simp add: exCanvasBW_def removeBackground_eval)

subsection \<open>The claims about background removal\<close>

text \<open>
  C9. Whatever the canvas and the tolerance, \<open>removeBackground\<close> either throws before it
  writes anything (a canvas of width or height zero) or returns the canvas with the same
  size and the same number of bytes, where every red, green and blue byte is unchanged
  and an alpha byte that differs is 0. When the alpha byte of the pixel at (0,0) is 0, the
  canvas is returned unchanged.
\<close>

theorem removeBackground_frame:
  "removeBackground canvas tolerance = Inl IndexSizeError \<or>
   (\<exists>c'. removeBackground canvas tolerance = Inr c' \<and>
      cv_has2d c' = cv_has2d canvas \<and>
      cv_width c' = cv_width canvas \<and> cv_height c' = cv_height canvas \<and>
      length (cv_data c') = length (cv_data canvas) \<and>
      (\<forall>k < length (cv_data canvas).
         (k mod 4 \<noteq> 3 \<longrightarrow> cv_data c' ! k = cv_data canvas ! k) \<and>
         (cv_data c' ! k \<noteq> cv_data canvas ! k \<longrightarrow> cv_data c' ! k = 0)) \<and>
      (rd (cv_data canvas) 3 = Some 0 \<longrightarrow> c' = canvas))"
proof (cases "removeBackground canvas tolerance = Inr canvas")
  case True
  then show ?thesis by simp
next
  case False
  let ?d = "cv_data canvas"
  let ?l = "removeLoop ?d (rd ?d 0) (rd ?d 1) (rd ?d 2) tolerance 0"
  show ?thesis
  proof (cases "cv_width canvas = 0 \<or> cv_height canvas = 0")
    case True
    with False show ?thesis
      by (auto simp: removeBackground_def getImageData_def)
  next
    case sz: False
    with False have a0: "rd ?d 3 \<noteq> Some 0" and ctx: "cv_has2d canvas"
      by (auto simp: removeBackground_def getImageData_def Let_def split: if_splits)
    with sz have run: "removeBackground canvas tolerance = Inr (canvas\<lparr>cv_data := ?l\<rparr>)"
      by (simp add: removeBackground_def getImageData_def Let_def)
    have nth: "\<And>k. k < length ?d \<Longrightarrow>
        (k mod 4 \<noteq> 3 \<longrightarrow> ?l ! k = ?d ! k) \<and> (?l ! k \<noteq> ?d ! k \<longrightarrow> ?l ! k = 0)"
      using removeLoop_nth[of 0 _ ?d "rd ?d 0" "rd ?d 1" "rd ?d 2" tolerance] by simp
    from run a0 nth show ?thesis by simp
  qed
qed

theorem removeBackground_frame_witness:
  "removeBackground exCanvasBW 442 \<noteq> Inl IndexSizeError \<and>
   (\<exists>c'. removeBackground exCanvasBW 442 = Inr c' \<and> cv_width c' = 2 \<and> cv_height c' = 1 \<and>
      length (cv_data c') = 8 \<and> cv_data c' ! 4 = 0 \<and> cv_data c' ! 7 = 0)"
proof -
  have ev: "removeBackground exCanvasBW 442 =
      Inr (exCanvasBW\<lparr>cv_data := [255, 255, 255, 0, 0, 0, 0, 0]\<rparr>)"
    by (rule removeBackground_BW_442)
  from removeBackground_frame[of exCanvasBW 442] ev show ?thesis
    by (simp add: exCanvasBW_def)
qed

text \<open>
  C5, as the specification states it: with a white opaque pixel at (0,0), tolerance 441
  makes every pixel transparent. It fails for a black pixel, whose distance from white is
  the square root of 195075, about 441.67: its alpha stays 255.
\<close>

theorem removeBackground_441_counterexample:
  "take 4 (cv_data exCanvasBW) = [255, 255, 255, 255] \<and>
   (\<exists>c'. removeBackground exCanvasBW 441 = Inr c' \<and> cv_data c' ! 7 = 255)"
  by (simp add: removeBackground_BW_441) (simp add: exCanvasBW_def)

text \<open>
  C5, amended. On a well-formed canvas whose pixel at (0,0) is (255,255,255,255): tolerance 0
  sets alpha to 0 on exactly the pixels whose RGB is (255,255,255) and leaves every other
  alpha byte as it was; tolerance 441 sets alpha to 0 on exactly the pixels whose squared
  RGB distance from white is at most 441 * 441 = 194481 and leaves the others (pure black
  among them) as they were; every tolerance of 442 or more sets alpha to 0 on every pixel.
\<close>

theorem removeBackground_white_reference:
  assumes "wfCanvas c" "cv_has2d c" "0 < cv_width c" "0 < cv_height c"
    and "take 4 (cv_data c) = [255, 255, 255, 255]"
  shows
   "(\<exists>c'. removeBackground c 0 = Inr c' \<and>
       (\<forall>p < cv_width c * cv_height c.
          cv_data c' ! (4 * p + 3) =
            (if cv_data c ! (4 * p) = 255 \<and> cv_data c ! (4 * p + 1) = 255 \<and>
                cv_data c ! (4 * p + 2) = 255
             then 0 else cv_data c ! (4 * p + 3)))) \<and>
    (\<exists>c'. removeBackground c 441 = Inr c' \<and>
       (\<forall>p < cv_width c * cv_height c.
          cv_data c' ! (4 * p + 3) =
            (if sqDistance (cv_data c ! (4 * p)) (cv_data c ! (4 * p + 1))
                  (cv_data c ! (4 * p + 2)) 255 255 255 \<le> 194481
             then 0 else cv_data c ! (4 * p + 3)))) \<and>
    (\<forall>t \<ge> 442. \<exists>c'. removeBackground c t = Inr c' \<and>
       (\<forall>p < cv_width c * cv_height c. cv_data c' ! (4 * p + 3) = 0))"
proof -
  let ?d = "cv_data c"
  have l4: "4 \<le> length ?d"
    using assms(1,3,4) by (cases "cv_width c"; cases "cv_height c") (simp_all add: wfCanvas_def)
  have "take 4 ?d ! 0 = 255" "take 4 ?d ! 1 = 255" "take 4 ?d ! 2 = 255" "take 4 ?d ! 3 = 255"
    by (simp_all only: assms(5)) simp_all
  then have px: "?d ! 0 = 255" "?d ! 1 = 255" "?d ! 2 = 255" "?d ! 3 = 255" by simp_all
  then have a0: "?d ! 3 \<noteq> 0" by simp
  note A = removeBackground_alpha[OF assms(1-4) a0, unfolded px]
  have p0: "\<exists>c'. removeBackground c 0 = Inr c' \<and>
       (\<forall>p < cv_width c * cv_height c.
          cv_data c' ! (4 * p + 3) =
            (if ?d ! (4 * p) = 255 \<and> ?d ! (4 * p + 1) = 255 \<and> ?d ! (4 * p + 2) = 255
             then 0 else ?d ! (4 * p + 3)))"
    using A[of 0] by (simp add: sqDistance_zero)
  have p1: "\<exists>c'. removeBackground c 441 = Inr c' \<and>
       (\<forall>p < cv_width c * cv_height c.
          cv_data c' ! (4 * p + 3) =
            (if sqDistance (?d ! (4 * p)) (?d ! (4 * p + 1)) (?d ! (4 * p + 2)) 255 255 255
                 \<le> 194481
             then 0 else ?d ! (4 * p + 3)))"
  proof -
    have "\<And>v::int. real_of_int v \<le> 441\<^sup>2 \<longleftrightarrow> v \<le> 194481"
    proof -
      fix v :: int
      have "(441::real)\<^sup>2 = real_of_int 194481" by simp
      then show "real_of_int v \<le> 441\<^sup>2 \<longleftrightarrow> v \<le> 194481" by (simp only: of_int_le_iff)
    qed
    with A[of 441] show ?thesis by simp
  qed
  have p2: "\<forall>t \<ge> 442. \<exists>c'. removeBackground c t = Inr c' \<and>
       (\<forall>p < cv_width c * cv_height c. cv_data c' ! (4 * p + 3) = 0)"
  proof (intro allI impI)
    fix t :: real assume t: "442 \<le> t"
    then have "(442::real)\<^sup>2 \<le> t\<^sup>2" by (intro power_mono) simp_all
    then have big: "195364 \<le> t\<^sup>2" by simp
    have "\<And>r g b. real_of_int (sqDistance r g b 255 255 255) \<le> t\<^sup>2"
    proof -
      fix r g b :: "8 word"
      have "real_of_int (sqDistance r g b 255 255 255) \<le> real_of_int 195075"
        using sqDistance_bound[of r g b 255 255 255] by (simp only: of_int_le_iff)
      with big show "real_of_int (sqDistance r g b 255 255 255) \<le> t\<^sup>2" by simp
    qed
    moreover have "0 \<le> t" using t by simp
    ultimately show "\<exists>c'. removeBackground c t = Inr c' \<and>
       (\<forall>p < cv_width c * cv_height c. cv_data c' ! (4 * p + 3) = 0)"
      using A[of t] by simp
  qed
  from p0 p1 p2 show ?thesis by blast
qed

theorem removeBackground_white_reference_witness:
  "wfCanvas exCanvasBW \<and> cv_has2d exCanvasBW \<and> 0 < cv_width exCanvasBW \<and>
   0 < cv_height exCanvasBW \<and> take 4 (cv_data exCanvasBW) = [255, 255, 255, 255] \<and>
   (\<exists>c'. removeBackground exCanvasBW 0 = Inr c' \<and> cv_data c' ! 3 = 0 \<and> cv_data c' ! 7 = 255) \<and>
   (\<exists>c'. removeBackground exCanvasBW 442 = Inr c' \<and> cv_data c' ! 3 = 0 \<and> cv_data c' ! 7 = 0)"
proof -
  have h: "wfCanvas exCanvasBW" "cv_has2d exCanvasBW" "0 < cv_width exCanvasBW"
    "0 < cv_height exCanvasBW" "take 4 (cv_data exCanvasBW) = [255, 255, 255, 255]"
    by (simp_all add: exCanvasBW_def wfCanvas_def)
  note T = removeBackground_white_reference[OF h]
  from T obtain c0 where c0: "removeBackground exCanvasBW 0 = Inr c0"
    "\<forall>p < cv_width exCanvasBW * cv_height exCanvasBW.
          cv_data c0 ! (4 * p + 3) =
            (if cv_data exCanvasBW ! (4 * p) = 255 \<and> cv_data exCanvasBW ! (4 * p + 1) = 255 \<and>
                cv_data exCanvasBW ! (4 * p + 2) = 255
             then 0 else cv_data exCanvasBW ! (4 * p + 3))" by blast
  from c0(2)[rule_format, of 0] c0(2)[rule_format, of 1]
  have r0: "cv_data c0 ! 3 = 0" "cv_data c0 ! 7 = 255" by (simp_all add: exCanvasBW_def)
  from T have "\<exists>c'. removeBackground exCanvasBW 442 = Inr c' \<and>
       (\<forall>p < cv_width exCanvasBW * cv_height exCanvasBW. cv_data c' ! (4 * p + 3) = 0)"
    by simp
  then obtain c2 where c2: "removeBackground exCanvasBW 442 = Inr c2"
    "\<forall>p < cv_width exCanvasBW * cv_height exCanvasBW. cv_data c2 ! (4 * p + 3) = 0" by blast
  from c2(2)[rule_format, of 0] c2(2)[rule_format, of 1]
  have r2: "cv_data c2 ! 3 = 0" "cv_data c2 ! 7 = 0" by (simp_all add: exCanvasBW_def)
  from h c0(1) r0 c2(1) r2 show ?thesis by simp
qed

section \<open>Properties of cropping\<close>

lemma cropImage_nonhomogenized:
  assumes "br_tempContext browser" "\<not> st_homogenize settings"
    "box_width box \<noteq> 0" "box_height box \<noteq> 0"
  shows "cropImage browser sourceCanvas box settings =
     (let out = \<lparr>oc_width = box_width box + 4, oc_height = box_height box + 4,
                 oc_draws = [\<lparr>dc_image = sourceCanvas, dc_sx = box_x box, dc_sy = box_y box,
                     dc_sw = box_width box, dc_sh = box_height box,
                     dc_dx = 2, dc_dy = 2,
                     dc_dw = real_of_int (box_width box), dc_dh = real_of_int (box_height box),
                     dc_quality = Low\<rparr>]\<rparr>
      in if br_encodes browser out then Inr (Png out) else Inl CropFailed)"
  using assms by (simp add: cropImage_def drawImage_def Let_def)

subsection \<open>The claim about verbatim cropping\<close>

text \<open>
  C3, as the specification states it: a box of width 30 and height 40 gives an output of
  34 by 38 pixels. The height is 44.
\<close>

theorem cropImage_verbatim_counterexample:
  "\<exists>out. cropImage exBrowser exCanvasBW exBox3040 exSettings = Inr (Png out) \<and>
         oc_width out = 34 \<and> oc_height out = 44 \<and> oc_height out \<noteq> 38"
  by (simp add: cropImage_nonhomogenized exBrowser_def exSettings_def exBox3040_def Let_def)

text \<open>
  C3, amended. In verbatim mode, when the browser provides the context and encodes the
  canvas, \<open>cropImage\<close> applied to a box of width 30 and height 40 resolves with the image of
  a canvas of exactly 34 by 44 pixels, on which the one call of \<open>drawImage\<close> paints the
  30 by 40 rectangle of the source at the corner of the box to the 30 by 40 rectangle
  of the output at (2, 2), so without scaling.
\<close>

theorem cropImage_verbatim_30_40:
  assumes "br_tempContext browser" "\<not> st_homogenize settings"
    and "box_width box = 30" "box_height box = 40"
    and "br_encodes browser
           \<lparr>oc_width = 34, oc_height = 44,
            oc_draws = [\<lparr>dc_image = sourceCanvas, dc_sx = box_x box, dc_sy = box_y box,
              dc_sw = 30, dc_sh = 40, dc_dx = 2, dc_dy = 2, dc_dw = 30, dc_dh = 40,
              dc_quality = Low\<rparr>]\<rparr>"
  shows "\<exists>out call. cropImage browser sourceCanvas box settings = Inr (Png out) \<and>
           oc_width out = 34 \<and> oc_height out = 44 \<and> oc_draws out = [call] \<and>
           dc_image call = sourceCanvas \<and>
           dc_sx call = box_x box \<and> dc_sy call = box_y box \<and> dc_sw call = 30 \<and> dc_sh call = 40 \<and>
           dc_dx call = 2 \<and> dc_dy call = 2 \<and> dc_dw call = 30 \<and> dc_dh call = 40"
  using assms by (simp add: cropImage_nonhomogenized Let_def)

theorem cropImage_verbatim_30_40_witness:
  "br_tempContext exBrowser \<and> \<not> st_homogenize exSettings \<and> box_width exBox3040 = 30 \<and>
   box_height exBox3040 = 40 \<and>
   (\<exists>out call. cropImage exBrowser exCanvasBW exBox3040 exSettings = Inr (Png out) \<and>
      oc_width out = 34 \<and> oc_height out = 44 \<and> oc_draws out = [call] \<and>
      dc_sx call = 5 \<and> dc_sy call = 7 \<and> dc_dx call = 2 \<and> dc_dy call = 2)"
proof -
  have h: "br_tempContext exBrowser" "\<not> st_homogenize exSettings" "box_width exBox3040 = 30"
    "box_height exBox3040 = 40"
    by (simp_all add: exBrowser_def exSettings_def exBox3040_def)
  have e: "br_encodes exBrowser
           \<lparr>oc_width = 34, oc_height = 44,
            oc_draws = [\<lparr>dc_image = exCanvasBW, dc_sx = box_x exBox3040, dc_sy = box_y exBox3040,
              dc_sw = 30, dc_sh = 40, dc_dx = 2, dc_dy = 2, dc_dw = 30, dc_dh = 40,
              dc_quality = Low\<rparr>]\<rparr>" by (simp add: exBrowser_def)
  from cropImage_verbatim_30_40[OF h e] h show ?thesis
    by (simp add: exBox3040_def) blast
qed


section \<open>Properties of the naming queue\<close>

lemma trim_unknown: "trim ''unknown_item'' = ''unknown_item''"
  by (simp add: trim_def isSpace_def)

lemma identifyAsset_fallback: "aiFailed (ai blob) \<Longrightarrow> identifyAsset ai blob = ''unknown_item''"
  by (auto simp: aiFailed_def identifyAsset_def removeAll_def trim_unknown Let_def
      split: AiOutcome.splits option.splits)

lemma startBatch_assets:
  "app_assets (startBatch batch st) =
     map (\<lambda>a. if as_id a \<in> as_id ` set batch then a\<lparr>as_status := Naming\<rparr> else a) (app_assets st)"
  unfolding startBatch_def
proof (induction batch arbitrary: st)
  case Nil
  show ?case by simp
next
  case (Cons b bs)
  let ?st = "st\<lparr>app_assets := setNaming (as_id b) (app_assets st)\<rparr>"
  have "app_assets (foldl (\<lambda>st asset. st\<lparr>app_assets := setNaming (as_id asset) (app_assets st)\<rparr>)
          ?st bs) =
        map (\<lambda>a. if as_id a \<in> as_id ` set bs then a\<lparr>as_status := Naming\<rparr> else a)
          (setNaming (as_id b) (app_assets st))"
    using Cons.IH[of ?st] by simp
  also have "\<dots> = map (\<lambda>a. if as_id a \<in> as_id ` set (b # bs) then a\<lparr>as_status := Naming\<rparr> else a)
          (app_assets st)"
    by (simp add: setNaming_def)
  finally show ?case by simp
qed

lemma finishBatch_assets:
  "app_assets (finishBatch world completed st) =
     map (\<lambda>a. if as_id a \<in> as_id ` set completed then
                 a\<lparr>as_originalName := nm (as_id a), as_finalName := nm (as_id a), as_status := Ready\<rparr>
               else a) (app_assets st)"
  if "\<And>b. b \<in> set completed \<Longrightarrow> identifyAsset (w_ai world) (as_blob b) = nm (as_id b)"
  using that unfolding finishBatch_def
proof (induction completed arbitrary: st)
  case Nil
  show ?case by simp
next
  case (Cons b bs)
  let ?F = "\<lambda>st asset. st\<lparr>app_assets :=
                   setReady (as_id asset) (identifyAsset (w_ai world) (as_blob asset)) (app_assets st),
                 app_processedCount := app_processedCount st + 1\<rparr>"
  let ?st = "?F st b"
  have nb: "identifyAsset (w_ai world) (as_blob b) = nm (as_id b)" using Cons.prems by simp
  have "app_assets (foldl ?F ?st bs) =
        map (\<lambda>a. if as_id a \<in> as_id ` set bs then
                 a\<lparr>as_originalName := nm (as_id a), as_finalName := nm (as_id a), as_status := Ready\<rparr>
               else a) (app_assets ?st)"
    using Cons.IH[of ?st] Cons.prems by simp
  also have "\<dots> = map (\<lambda>a. if as_id a \<in> as_id ` set (b # bs) then
                 a\<lparr>as_originalName := nm (as_id a), as_finalName := nm (as_id a), as_status := Ready\<rparr>
               else a) (app_assets st)"
    by (simp add: setReady_def nb)
  finally show ?case by simp
qed

lemma finishBatch_count:
  "app_processedCount (finishBatch world completed st) = app_processedCount st + length completed"
  unfolding finishBatch_def by (induction completed arbitrary: st) simp_all

lemma finishBatch_step: "app_step (finishBatch world completed st) = app_step st"
  unfolding finishBatch_def by (induction completed arbitrary: st) simp_all

lemma startBatch_step: "app_step (startBatch batch st) = app_step st"
  unfolding startBatch_def by (induction batch arbitrary: st) simp_all

lemma startBatch_count: "app_processedCount (startBatch batch st) = app_processedCount st"
  unfolding startBatch_def by (induction batch arbitrary: st) simp_all

lemma queueLoop_assets:
  assumes nm: "\<And>b. b \<in> set cur \<Longrightarrow> identifyAsset (w_ai world) (as_blob b) = nm (as_id b)"
    and comp: "\<And>batch. set (w_completion world batch) = set batch"
  shows "app_assets st =
           map (\<lambda>a. if as_id a \<in> as_id ` set (take i cur) then
                  a\<lparr>as_originalName := nm (as_id a), as_finalName := nm (as_id a), as_status := Ready\<rparr>
                else a) cur \<Longrightarrow>
         app_assets (queueLoop world cur i st) =
           map (\<lambda>a. a\<lparr>as_originalName := nm (as_id a), as_finalName := nm (as_id a),
                       as_status := Ready\<rparr>) cur"
  using nm comp
proof (induction world cur i st rule: queueLoop.induct)
  case (1 world cur i st)
  note inv = "1.prems"(1) and nm = "1.prems"(2) and comp = "1.prems"(3)
  show ?case
  proof (cases "i < length cur")
    case False
    then have "take i cur = cur" by simp
    with inv False show ?thesis by (simp add: queueLoop.simps[of world cur i st])
  next
    case True
    let ?batch = "take BATCH_SIZE (drop i cur)"
    let ?st = "finishBatch world (w_completion world ?batch) (startBatch ?batch st)"
    have sub: "set (w_completion world ?batch) \<subseteq> set cur"
      unfolding comp by (meson set_take_subset set_drop_subset subset_trans)
    have nmb: "\<And>b. b \<in> set (w_completion world ?batch) \<Longrightarrow>
        identifyAsset (w_ai world) (as_blob b) = nm (as_id b)" using sub nm by blast
    have tk: "take (i + BATCH_SIZE) cur = take i cur @ ?batch" by (simp add: take_add)
    have f: "app_assets ?st =
        map (\<lambda>a. if as_id a \<in> as_id ` set (w_completion world ?batch) then
                  a\<lparr>as_originalName := nm (as_id a), as_finalName := nm (as_id a), as_status := Ready\<rparr>
                else a) (app_assets (startBatch ?batch st))"
      using nmb by (rule finishBatch_assets)
    have "app_assets ?st =
        map (\<lambda>a. if as_id a \<in> as_id ` set (take (i + BATCH_SIZE) cur) then
                  a\<lparr>as_originalName := nm (as_id a), as_finalName := nm (as_id a), as_status := Ready\<rparr>
                else a) cur"
      unfolding f startBatch_assets inv comp tk by auto
    from "1.IH"[OF True refl this nm comp] True show ?thesis
      by (simp add: queueLoop.simps[of world cur i st] Let_def)
  qed
qed

lemma queueLoop_count:
  assumes comp: "\<And>batch. length (w_completion world batch) = length batch"
  shows "app_processedCount (queueLoop world cur i st) = app_processedCount st + (length cur - i)"
  using comp
proof (induction world cur i st rule: queueLoop.induct)
  case (1 world cur i st)
  note comp = "1.prems"
  show ?case
  proof (cases "i < length cur")
    case False
    then show ?thesis by (simp add: queueLoop.simps[of world cur i st])
  next
    case True
    let ?batch = "take BATCH_SIZE (drop i cur)"
    let ?st = "finishBatch world (w_completion world ?batch) (startBatch ?batch st)"
    have "app_processedCount ?st = app_processedCount st + min BATCH_SIZE (length cur - i)"
      by (simp add: finishBatch_count startBatch_count comp)
    with "1.IH"[OF True refl comp] True show ?thesis
      by (simp add: queueLoop.simps[of world cur i st] Let_def min_def)
  qed
qed

lemma queueLoop_step: "app_step (queueLoop world cur i st) = app_step st"
proof (induction world cur i st rule: queueLoop.induct)
  case (1 world cur i st)
  show ?case
  proof (cases "i < length cur")
    case False
    then show ?thesis by (simp add: queueLoop.simps[of world cur i st])
  next
    case True
    with "1.IH"[OF True refl] show ?thesis
      by (simp add: queueLoop.simps[of world cur i st] Let_def finishBatch_step startBatch_step)
  qed
qed

lemma queueAiNaming_assets:
  assumes d: "distinct (map as_id currentAssets)"
    and comp: "\<And>batch. mset (w_completion world batch) = mset batch"
    and st: "app_assets st = currentAssets"
  shows "app_assets (queueAiNaming world currentAssets st) = map (named world) currentAssets"
proof -
  let ?tab = "map (\<lambda>b. (as_id b, identifyAsset (w_ai world) (as_blob b))) currentAssets"
  define nm where "nm = (\<lambda>k. case map_of ?tab k of Some n \<Rightarrow> n | None \<Rightarrow> [])"
  have fst: "map fst ?tab = map as_id currentAssets" by (simp add: comp_def)
  have nm: "\<And>b. b \<in> set currentAssets \<Longrightarrow>
      identifyAsset (w_ai world) (as_blob b) = nm (as_id b)"
  proof -
    fix b assume "b \<in> set currentAssets"
    then have "(as_id b, identifyAsset (w_ai world) (as_blob b)) \<in> set ?tab" by auto
    with d fst have "map_of ?tab (as_id b) = Some (identifyAsset (w_ai world) (as_blob b))"
      by (metis map_of_is_SomeI)
    then show "identifyAsset (w_ai world) (as_blob b) = nm (as_id b)" by (simp add: nm_def)
  qed
  have cs: "\<And>batch. set (w_completion world batch) = set batch"
    using comp by (metis set_mset_mset)
  have inv: "app_assets st =
           map (\<lambda>a. if as_id a \<in> as_id ` set (take 0 currentAssets) then
                  a\<lparr>as_originalName := nm (as_id a), as_finalName := nm (as_id a), as_status := Ready\<rparr>
                else a) currentAssets" using st by simp
  have "app_assets (queueLoop world currentAssets 0 st) =
      map (\<lambda>a. a\<lparr>as_originalName := nm (as_id a), as_finalName := nm (as_id a),
                       as_status := Ready\<rparr>) currentAssets"
    using nm cs inv by (rule queueLoop_assets)
  also have "\<dots> = map (named world) currentAssets"
    using nm by (simp add: named_def)
  finally show ?thesis by (simp add: queueAiNaming_def)
qed

subsection \<open>The claim about naming failures\<close>

text \<open>
  C8. When the naming call fails for a sprite (the API key is missing, reading the blob or
  the request is rejected, or the response has no text), \<open>identifyAsset\<close> returns
  \<open>unknown_item\<close>. The queue, run on assets with distinct ids that are the current state,
  whatever the order in which the calls of a batch complete, leaves every asset with the
  status \<open>Ready\<close> and the name \<open>identifyAsset\<close> returned for it, so \<open>unknown_item\<close> for a
  sprite whose call failed, and counts every asset as processed.
\<close>

theorem naming_failure_absorbed:
  assumes "distinct (map as_id currentAssets)"
    and "\<forall>batch. mset (w_completion world batch) = mset batch"
    and "app_assets st = currentAssets"
  shows "(\<forall>blob. aiFailed (w_ai world blob) \<longrightarrow> identifyAsset (w_ai world) blob = ''unknown_item'') \<and>
    app_assets (queueAiNaming world currentAssets st) = map (named world) currentAssets \<and>
    (\<forall>k < length currentAssets.
       as_status (app_assets (queueAiNaming world currentAssets st) ! k) = Ready \<and>
       (aiFailed (w_ai world (as_blob (currentAssets ! k))) \<longrightarrow>
          as_finalName (app_assets (queueAiNaming world currentAssets st) ! k) = ''unknown_item'')) \<and>
    app_processedCount (queueAiNaming world currentAssets st) =
      app_processedCount st + length currentAssets \<and>
    app_step (queueAiNaming world currentAssets st) = app_step st"
proof -
  have a: "app_assets (queueAiNaming world currentAssets st) = map (named world) currentAssets"
    using assms by (intro queueAiNaming_assets) simp_all
  have len: "\<And>batch. length (w_completion world batch) = length batch"
    using assms(2) by (metis size_mset)
  have c: "app_processedCount (queueAiNaming world currentAssets st) =
      app_processedCount st + length currentAssets"
    unfolding queueAiNaming_def using queueLoop_count[of world currentAssets 0 st, OF len] by simp
  have s: "app_step (queueAiNaming world currentAssets st) = app_step st"
    unfolding queueAiNaming_def by (rule queueLoop_step)
  have f: "\<forall>blob. aiFailed (w_ai world blob) \<longrightarrow> identifyAsset (w_ai world) blob = ''unknown_item''"
    using identifyAsset_fallback by blast
  have k: "\<forall>k < length currentAssets.
       as_status (app_assets (queueAiNaming world currentAssets st) ! k) = Ready \<and>
       (aiFailed (w_ai world (as_blob (currentAssets ! k))) \<longrightarrow>
          as_finalName (app_assets (queueAiNaming world currentAssets st) ! k) = ''unknown_item'')"
    unfolding a using f by (simp add: named_def)
  from f a k c s show ?thesis by blast
qed

theorem naming_failure_absorbed_witness:
  "distinct (map as_id exAssets) \<and> (\<forall>batch. mset (w_completion exWorld batch) = mset batch) \<and>
   app_assets exState = exAssets \<and> aiFailed (w_ai exWorld exBlobA) \<and>
   map as_status (app_assets (queueAiNaming exWorld exAssets exState)) = [Ready, Ready, Ready, Ready] \<and>
   map as_finalName (app_assets (queueAiNaming exWorld exAssets exState)) =
     [''unknown_item'', ''iron_sword'', ''iron_sword'', ''unknown_item'']"
proof -
  have h: "distinct (map as_id exAssets)" "\<forall>batch. mset (w_completion exWorld batch) = mset batch"
    "app_assets exState = exAssets"
    by (simp_all add: exAssets_def exAsset_def exWorld_def exState_def)
  have ne: "exBlobB \<noteq> exBlobA" by (simp add: exBlobA_def exBlobB_def)
  have fa: "aiFailed (w_ai exWorld exBlobA)" by (simp add: aiFailed_def exWorld_def)
  have na: "identifyAsset (w_ai exWorld) exBlobA = ''unknown_item''"
    by (simp add: identifyAsset_def exWorld_def)
  have nb: "identifyAsset (w_ai exWorld) exBlobB = ''iron_sword''"
    by (simp add: identifyAsset_def exWorld_def ne trim_def isSpace_def removeAll_def)
  from naming_failure_absorbed[OF h]
  have "app_assets (queueAiNaming exWorld exAssets exState) = map (named exWorld) exAssets"
    by blast
  then show ?thesis using h fa
    by (simp add: exAssets_def exAsset_def named_def na nb)
qed


section \<open>Properties of detection and of the processing run\<close>

lemma findSprites_two:
  "findSprites exCanvasTwo =
     Inr [\<lparr>box_x = 0, box_y = 0, box_width = 12, box_height = 5\<rparr>,
          \<lparr>box_x = 12, box_y = 0, box_width = 12, box_height = 5\<rparr>]"
  by code_simp

lemma findSprites_edge:
  "findSprites exCanvasEdge = Inr [\<lparr>box_x = 1, box_y = 0, box_width = 7, box_height = 10\<rparr>]"
  by code_simp

lemma buildAssets_rejects:
  "box \<in> set boxes \<Longrightarrow> cropImage (w_browser world) canvas box settings = Inl e \<Longrightarrow>
   \<exists>e'. buildAssets world canvas settings index boxes = Inl e'"
proof (induction boxes arbitrary: index)
  case Nil
  then show ?case by simp
next
  case (Cons b bs)
  show ?case
  proof (cases "cropImage (w_browser world) canvas b settings")
    case (Inl e1)
    then show ?thesis by simp
  next
    case (Inr blob)
    with Cons.prems have "box \<in> set bs" by auto
    from Cons.IH[OF this Cons.prems(2), of "index + 1"] obtain e' where
      "buildAssets world canvas settings (index + 1) bs = Inl e'" by blast
    with Inr show ?thesis by simp
  qed
qed

lemma process_crop_rejected:
  assumes "cv_has2d canvas"
    and "(if st_removeBackground settings
          then removeBackground canvas (st_backgroundTolerance settings)
          else Inr canvas) = Inr canvas'"
    and "findSprites canvas' = Inr boxes"
    and "box \<in> set boxes"
    and "cropImage (w_browser world) canvas' box settings = Inl e"
  shows "process world settings canvas st = processFailed st"
proof -
  from buildAssets_rejects[OF assms(4,5), of 0] obtain e' where
    b: "buildAssets world canvas' settings 0 boxes = Inl e'" by blast
  from assms(4) have ne: "length boxes \<noteq> 0" by auto
  show ?thesis unfolding process_def assms(2)
    using assms(1) ne b by (simp add: assms(3))
qed

lemma visitNeighbor_inRaster:
  "list_all (inRaster width height) (snd vs) \<Longrightarrow>
   list_all (inRaster width height) (snd (visitNeighbor width height data vs n))"
  by (cases vs, cases n) (simp add: visitNeighbor_def Let_def inRaster_def)

lemma foldl_visitNeighbor_inRaster:
  "list_all (inRaster width height) (snd vs) \<Longrightarrow>
   list_all (inRaster width height) (snd (foldl (visitNeighbor width height data) vs ns))"
  by (induction ns arbitrary: vs) (simp_all add: visitNeighbor_inRaster)

lemma fillStep_inv:
  assumes "fillInv width height s" "fs_stack s = (x, y) # rest"
  shows "fillInv width height (fillStep width height data s x y rest)"
proof -
  from assms have xy: "inRaster width height (x, y)" and r: "list_all (inRaster width height) rest"
    by (simp_all add: fillInv_def)
  have "list_all (inRaster width height)
      (snd (foldl (visitNeighbor width height data) (fs_visited s, rest)
         [(x + 1, y), (x - 1, y), (x, y + 1), (x, y - 1)]))"
    using r by (intro foldl_visitNeighbor_inRaster) simp
  with assms(1) xy show ?thesis
    by (simp add: fillInv_def fillStep_def Let_def inRaster_def)
qed

lemma fillLoop_inv: "fillInv width height s \<Longrightarrow> fillInv width height (fillLoop width height data s)"
proof (induction width height data s rule: fillLoop.induct)
  case (1 width height data s)
  show ?case
  proof (cases "fs_stack s")
    case Nil
    with "1.prems" show ?thesis by (simp add: fillLoop.simps[of width height data s])
  next
    case (Cons p rest)
    obtain x y where p: "p = (x, y)" by (cases p)
    from Cons p have st: "fs_stack s = (x, y) # rest" by simp
    from "1.IH"[OF Cons p[symmetric] fillStep_inv[OF "1.prems" st]] st
    show ?thesis by (simp add: fillLoop.simps[of width height data s])
  qed
qed

lemma floodFill_box_bounds:
  assumes "0 \<le> startX" "startX < int width" "0 \<le> startY" "startY < int height"
    and "floodFill width height data visited startX startY = (visited', Some b)"
  shows "0 \<le> box_x b \<and> 0 \<le> box_y b \<and> box_width b \<le> int width \<and> box_height b \<le> int height \<and>
         box_x b + box_width b \<le> int width + 1 \<and> box_y b + box_height b \<le> int height + 1"
proof -
  let ?init = "\<lparr>fs_minX = startX, fs_maxX = startX, fs_minY = startY, fs_maxY = startY,
                fs_stack = [(startX, startY)],
                fs_visited = visited[nat (startY * int width + startX) := 1],
                fs_pixelCount = 0\<rparr>"
  let ?s = "fillLoop width height data ?init"
  have "fillInv width height ?init" using assms(1-4) by (simp add: fillInv_def inRaster_def)
  then have inv: "fillInv width height ?s" by (rule fillLoop_inv)
  from assms(5) have b: "b = \<lparr>box_x = max 0 (fs_minX ?s - 1), box_y = max 0 (fs_minY ?s - 1),
       box_width = min (int width) (fs_maxX ?s - fs_minX ?s + 1 + 1 * 2),
       box_height = min (int height) (fs_maxY ?s - fs_minY ?s + 1 + 1 * 2)\<rparr>"
    by (simp add: floodFill_def Let_def split: if_splits)
  from inv show ?thesis unfolding b fillInv_def by (simp add: max_def min_def)
qed

subsection \<open>The claims about detection and about a failed encoding\<close>

text \<open>
  C2. The claim is that every box of the detector lies inside the raster. On a raster 7
  pixels wide and 10 high whose columns 2 to 6 are opaque, the one component has
  \<open>minX = 2\<close> and \<open>maxX = 6\<close>; its box starts at \<open>x = 1\<close> with the width
  \<open>min 7 (6 - 2 + 3) = 7\<close>, so it ends at 8, one pixel past the raster. The width is
  clamped to the width of the raster, not to what is left of it to the right of \<open>x\<close>.
\<close>

theorem detector_box_exceeds_raster:
  "\<exists>b. findSprites exCanvasEdge = Inr [b] \<and> cv_width exCanvasEdge = 7 \<and>
       box_x b = 1 \<and> box_width b = 7 \<and> int (cv_width exCanvasEdge) < box_x b + box_width b"
  unfolding findSprites_edge by (simp add: exCanvasEdge_def)

text \<open>
  C4, as the specification states it: a sprite whose encoding fails is marked as an error
  and the other sprites are produced. On a sheet of two sprites, when the encoding fails
  for the first and succeeds for the second, the run produces no asset at all and goes back
  to the upload step.
\<close>

theorem process_encoding_counterexample:
  "findSprites exCanvasTwo =
     Inr [\<lparr>box_x = 0, box_y = 0, box_width = 12, box_height = 5\<rparr>,
          \<lparr>box_x = 12, box_y = 0, box_width = 12, box_height = 5\<rparr>] \<and>
   cropImage (w_browser exWorld) exCanvasTwo
     \<lparr>box_x = 0, box_y = 0, box_width = 12, box_height = 5\<rparr> exSettings = Inl CropFailed \<and>
   (\<exists>blob. cropImage (w_browser exWorld) exCanvasTwo
     \<lparr>box_x = 12, box_y = 0, box_width = 12, box_height = 5\<rparr> exSettings = Inr blob) \<and>
   app_assets (process exWorld exSettings exCanvasTwo exState0) = [] \<and>
   app_step (process exWorld exSettings exCanvasTwo exState0) = UPLOAD"
proof -
  let ?b1 = "\<lparr>box_x = 0, box_y = 0, box_width = 12, box_height = 5\<rparr>"
  let ?b2 = "\<lparr>box_x = 12, box_y = 0, box_width = 12, box_height = 5\<rparr>"
  have c1: "cropImage (w_browser exWorld) exCanvasTwo ?b1 exSettings = Inl CropFailed"
    by (simp add: cropImage_nonhomogenized exWorld_def exSettings_def Let_def)
  have c2: "\<exists>blob. cropImage (w_browser exWorld) exCanvasTwo ?b2 exSettings = Inr blob"
    by (simp add: cropImage_nonhomogenized exWorld_def exSettings_def Let_def)
  have h: "cv_has2d exCanvasTwo"
    "(if st_removeBackground exSettings
      then removeBackground exCanvasTwo (st_backgroundTolerance exSettings)
      else Inr exCanvasTwo) = Inr exCanvasTwo"
    by (simp_all add: exCanvasTwo_def exSettings_def)
  have "process exWorld exSettings exCanvasTwo exState0 = processFailed exState0"
    using h findSprites_two _ c1 by (rule process_crop_rejected) simp
  then have "app_assets (process exWorld exSettings exCanvasTwo exState0) = []"
    "app_step (process exWorld exSettings exCanvasTwo exState0) = UPLOAD"
    by (simp_all add: processFailed_def exState0_def)
  with findSprites_two c1 c2 show ?thesis by blast
qed

text \<open>
  C4, amended. When the encoding of the output image fails for one of the detected sprites
  (\<open>cropImage\<close> rejects with the error of a failed crop), the whole run fails: the catch
  block of \<open>process\<close> shows the alert that the image could not be processed and goes back
  to the upload step, and the list of assets is left as it was, so no sprite of the sheet
  is produced and none is marked as an error.
\<close>

theorem process_encoding_failure:
  assumes "cv_has2d canvas"
    and "(if st_removeBackground settings
          then removeBackground canvas (st_backgroundTolerance settings)
          else Inr canvas) = Inr canvas'"
    and "findSprites canvas' = Inr boxes"
    and "box \<in> set boxes"
    and "cropImage (w_browser world) canvas' box settings = Inl CropFailed"
  shows "process world settings canvas st = processFailed st \<and>
         app_assets (process world settings canvas st) = app_assets st \<and>
         app_step (process world settings canvas st) = UPLOAD \<and>
         app_alerts (process world settings canvas st) =
           app_alerts st @ [''Failed to process image. See console for details.'']"
proof -
  have "process world settings canvas st = processFailed st"
    using assms by (rule process_crop_rejected)
  then show ?thesis by (simp add: processFailed_def)
qed

theorem process_encoding_failure_witness:
  "cv_has2d exCanvasTwo \<and> \<not> st_removeBackground exSettings \<and>
   \<lparr>box_x = 0, box_y = 0, box_width = 12, box_height = 5\<rparr> \<in>
     set [\<lparr>box_x = 0, box_y = 0, box_width = 12, box_height = 5\<rparr>,
          \<lparr>box_x = 12, box_y = 0, box_width = 12, box_height = 5\<rparr>] \<and>
   process exWorld exSettings exCanvasTwo exState =
     exState\<lparr>app_alerts := [''Failed to process image. See console for details.''],
             app_step := UPLOAD\<rparr> \<and>
   app_assets (process exWorld exSettings exCanvasTwo exState) = exAssets"
proof -
  let ?b1 = "\<lparr>box_x = 0, box_y = 0, box_width = 12, box_height = 5\<rparr>"
  let ?b2 = "\<lparr>box_x = 12, box_y = 0, box_width = 12, box_height = 5\<rparr>"
  have c1: "cropImage (w_browser exWorld) exCanvasTwo ?b1 exSettings = Inl CropFailed"
    by (simp add: cropImage_nonhomogenized exWorld_def exSettings_def Let_def)
  have h: "cv_has2d exCanvasTwo"
    "(if st_removeBackground exSettings
      then removeBackground exCanvasTwo (st_backgroundTolerance exSettings)
      else Inr exCanvasTwo) = Inr exCanvasTwo"
    by (simp_all add: exCanvasTwo_def exSettings_def)
  have m: "?b1 \<in> set [?b1, ?b2]" by simp
  from process_encoding_failure[OF h findSprites_two m c1, of exState] h(1) m
  show ?thesis by (simp add: processFailed_def exState_def exSettings_def)
qed

end
